theory Spec2Isabelle
  imports Main
begin

section \<open>Exceptions\<close>

text \<open>
  Every exception of the program is a value. \<open>OverflowError\<close> is what the conversion of a
  Python integer to a float raises (``int too large to convert to float''),
  \<open>ValueError\<close> what \<open>math.sqrt\<close> raises on a negative argument, \<open>AttributeError\<close> what
  reading a missing attribute raises, \<open>TypeError\<close> what a call with arguments that do
  not fit the parameter list raises. \<open>Exception\<close> stands for any other exception a wrapped
  callable may raise.
\<close>

datatype error = OverflowError | ValueError | AttributeError | TypeError | Exception string

section \<open>Integers and floats\<close>

text \<open>
  Python integers are unbounded: they are \<open>int\<close>. A Python float is an IEEE 754 binary64
  number. The only floats the primality test meets are finite, so a float is modelled by its
  exact value \<open>mantissa * 2 ^ exponent\<close>.
\<close>

record double =
  mantissa :: int
  exponent :: int

text \<open>\<open>int.bit_length\<close> of a non-negative integer.\<close>

function bit_length :: "int \<Rightarrow> nat" where
  "bit_length n = (if n \<le> 0 then 0 else Suc (bit_length (n div 2)))"
  by pat_completeness auto
termination
  by (relation "measure nat") auto

declare bit_length.simps [simp del]

text \<open>\<open>n / 2 ^ s\<close> rounded to the nearest integer, ties to the even one (\<open>0 \<le> n\<close>).\<close>

definition round_half_even :: "int \<Rightarrow> nat \<Rightarrow> int" where
  "round_half_even n s =
     (let q = n div 2 ^ s; r = n mod 2 ^ s
      in if 2 ^ s < 2 * r \<or> (2 * r = 2 ^ s \<and> odd q) then q + 1 else q)"

text \<open>
  The conversion \<open>float(n)\<close> that \<open>math.sqrt\<close> applies to an integer argument: exact up to 53
  bits, otherwise rounded to 53 significant bits, ties to even; a result of \<open>2 ^ 1024\<close> or
  more is not a float, and the conversion raises.
\<close>

definition float_of_int :: "int \<Rightarrow> error + double" where
  "float_of_int n =
     (let b = bit_length \<bar>n\<bar> in
      if b \<le> 53 then Inr \<lparr>mantissa = n, exponent = 0\<rparr>
      else
        let s = b - 53; m = round_half_even \<bar>n\<bar> s in
        if 2 ^ 1024 \<le> m * 2 ^ s then Inl OverflowError
        else Inr \<lparr>mantissa = sgn n * m, exponent = int s\<rparr>)"

text \<open>The integer square root, two bits at a time.\<close>

function floor_sqrt :: "int \<Rightarrow> int" where
  "floor_sqrt n =
     (if n \<le> 0 then 0
      else let r = 2 * floor_sqrt (n div 4) in if (r + 1) * (r + 1) \<le> n then r + 1 else r)"
  by pat_completeness auto
termination
  by (relation "measure nat") auto

declare floor_sqrt.simps [simp del]

text \<open>
  \<open>math.sqrt\<close> on a float: the float nearest to the exact square root (IEEE 754 requires the
  square root to be correctly rounded), and \<open>ValueError\<close> on a negative argument. The
  radicand is scaled by a power of four until its integer square root has 53 bits; that root
  is then rounded to nearest. No tie can occur: the scaled radicand \<open>N\<close> is an integer, and the
  root lies above the midpoint \<open>a + 1/2\<close> exactly when \<open>a * a + a < N\<close>.
\<close>

definition sqrt_double :: "double \<Rightarrow> error + double" where
  "sqrt_double x =
     (let m = mantissa x; e = exponent x in
      if m < 0 then Inl ValueError
      else if m = 0 then Inr \<lparr>mantissa = 0, exponent = 0\<rparr>
      else
        let m2 = (if even e then m else 2 * m);
            e2 = (if even e then e else e - 1);
            j = (106 - int (bit_length m2)) div 2;
            N = m2 * 4 ^ nat j;
            a = floor_sqrt N;
            r = (if a < N - a * a then a + 1 else a)
        in Inr \<lparr>mantissa = r, exponent = e2 div 2 - j\<rparr>)"

text \<open>\<open>int(x)\<close> on a float: truncation towards zero.\<close>

definition int_of_double :: "double \<Rightarrow> int" where
  "int_of_double x =
     (if 0 \<le> exponent x then mantissa x * 2 ^ nat (exponent x)
      else sgn (mantissa x) * (\<bar>mantissa x\<bar> div 2 ^ nat (- exponent x)))"

text \<open>\<open>range(a, b)\<close>, as the list of its elements.\<close>

definition py_range :: "int \<Rightarrow> int \<Rightarrow> int list" where
  "py_range a b = [a..b - 1]"

section \<open>The primality test\<close>

text \<open>The loop of \<open>is_prime\<close>: \<open>False\<close> at the first exact divisor, \<open>True\<close> when the range is exhausted.\<close>

fun trial_division :: "int \<Rightarrow> int list \<Rightarrow> bool" where
  "trial_division number [] = True"
| "trial_division number (element # rest) =
     (if number mod element = 0 then False else trial_division number rest)"

definition is_prime :: "int \<Rightarrow> error + bool" where
  "is_prime number =
     (if number < 2 then Inr False
      else
        case float_of_int number of
          Inl e \<Rightarrow> Inl e
        | Inr x \<Rightarrow>
            (case sqrt_double x of
               Inl e \<Rightarrow> Inl e
             | Inr y \<Rightarrow> Inr (trial_division number (py_range 2 (int_of_double y + 1)))))"

section \<open>The counting routine\<close>

text \<open>The loop of \<open>count_prime_numbers\<close>, with the running total; an exception of \<open>is_prime\<close> ends it.\<close>

fun count_loop :: "int list \<Rightarrow> int \<Rightarrow> error + int" where
  "count_loop [] count = Inr count"
| "count_loop (number # rest) count =
     (case is_prime number of
        Inl e \<Rightarrow> Inl e
      | Inr p \<Rightarrow> count_loop rest (if p then count + 1 else count))"

definition count_prime_numbers_body :: "int \<Rightarrow> error + int" where
  "count_prime_numbers_body upper_bound = count_loop (py_range 0 upper_bound) 0"

section \<open>Callables, the log and the timer\<close>

text \<open>
  What the wrappers act on: the messages handed to \<open>logging.info\<close> (oldest first), the number
  of \<open>perf_counter()\<close> calls made so far, and \<open>heap\<close> for whatever else a wrapped callable
  reads or changes. A log entry is a message handed to \<open>logging.info\<close>; what the configured
  handlers do with it is the business of the logging library.
\<close>

record 's world =
  log :: "string list"
  ticks :: nat
  heap :: 's

text \<open>
  The timer and the float formatting are outside the repository: \<open>perf_counter_at k\<close> is what
  the \<open>k\<close>-th call of \<open>perf_counter()\<close> returns, \<open>elapsed\<close> is the float subtraction
  \<open>end_time - start_time\<close>, and \<open>format_2f\<close> is the format \<open>:.2f\<close>.
\<close>

record 't platform =
  perf_counter_at :: "nat \<Rightarrow> 't"
  elapsed :: "'t \<Rightarrow> 't \<Rightarrow> 't"
  format_2f :: "'t \<Rightarrow> string"

text \<open>
  A callable object: its \<open>__name__\<close> attribute when it has one (a function has; a
  \<open>functools.partial\<close> object or an instance of a class with \<open>__call__\<close> has not), and what a call
  with positional and keyword arguments does: it returns or raises, and leaves a world.
\<close>

record ('v, 'r, 's) callable =
  name_attr :: "string option"
  call :: "'v list \<Rightarrow> (string \<times> 'v) list \<Rightarrow> 's world \<Rightarrow> (error + 'r) \<times> 's world"

definition logging_info :: "string \<Rightarrow> 's world \<Rightarrow> 's world" where
  "logging_info msg w = w\<lparr>log := log w @ [msg]\<rparr>"

definition perf_counter :: "'t platform \<Rightarrow> 's world \<Rightarrow> 't \<times> 's world" where
  "perf_counter pf w = (perf_counter_at pf (ticks w), w\<lparr>ticks := Suc (ticks w)\<rparr>)"

text \<open>The attribute access \<open>func.__name__\<close>.\<close>

definition get_name :: "('v, 'r, 's) callable \<Rightarrow> error + string" where
  "get_name func = (case name_attr func of None \<Rightarrow> Inl AttributeError | Some n \<Rightarrow> Inr n)"

text \<open>
  \<open>functools.wraps(func)\<close> copies the attributes that \<open>func\<close> has onto the wrapper and skips
  the ones it has not; the wrapper then keeps its own \<open>__name__\<close>.
\<close>

definition functools_wraps ::
  "('v, 'r, 's) callable \<Rightarrow> ('v, 'r, 's) callable \<Rightarrow> ('v, 'r, 's) callable" where
  "functools_wraps func wrapper =
     wrapper\<lparr>name_attr := (case name_attr func of None \<Rightarrow> name_attr wrapper | Some n \<Rightarrow> Some n)\<rparr>"

section \<open>The two decorators\<close>

definition with_logging :: "('v, 'r, 's) callable \<Rightarrow> ('v, 'r, 's) callable" where
  "with_logging func =
     functools_wraps func
       \<lparr>name_attr = Some ''wrapper'',
        call = (\<lambda>args kwargs w.
          case get_name func of
            Inl e \<Rightarrow> (Inl e, w)
          | Inr n \<Rightarrow>
              (case call func args kwargs (logging_info (''Calling '' @ n) w) of
                 (Inl e, w1) \<Rightarrow> (Inl e, w1)
               | (Inr value, w1) \<Rightarrow>
                   (case get_name func of
                      Inl e \<Rightarrow> (Inl e, w1)
                    | Inr n1 \<Rightarrow> (Inr value, logging_info (''Finished '' @ n1) w1))))\<rparr>"

definition benchmark :: "'t platform \<Rightarrow> ('v, 'r, 's) callable \<Rightarrow> ('v, 'r, 's) callable" where
  "benchmark pf func =
     functools_wraps func
       \<lparr>name_attr = Some ''wrapper'',
        call = (\<lambda>args kwargs w.
          case perf_counter pf w of
            (start_time, w1) \<Rightarrow>
              (case call func args kwargs w1 of
                 (Inl e, w2) \<Rightarrow> (Inl e, w2)
               | (Inr value, w2) \<Rightarrow>
                   (case perf_counter pf w2 of
                      (end_time, w3) \<Rightarrow>
                        (let run_time = elapsed pf end_time start_time in
                         case get_name func of
                           Inl e \<Rightarrow> (Inl e, w3)
                         | Inr n \<Rightarrow>
                             (Inr value,
                              logging_info
                                (''Execution of '' @ n @ '' took '' @ format_2f pf run_time @ '' seconds.'')
                                w3)))))\<rparr>"

section \<open>The decorated counting routine\<close>

text \<open>
  Binding the arguments of a call to the one parameter \<open>upper_bound\<close>: one positional
  argument, or the keyword \<open>upper_bound\<close>; anything else is a \<open>TypeError\<close>.
\<close>

fun bind_upper_bound :: "int list \<Rightarrow> (string \<times> int) list \<Rightarrow> error + int" where
  "bind_upper_bound [n] [] = Inr n"
| "bind_upper_bound [] [(k, n)] = (if k = ''upper_bound'' then Inr n else Inl TypeError)"
| "bind_upper_bound args kwargs = Inl TypeError"

text \<open>The function object that \<open>def count_prime_numbers\<close> creates, before decoration.\<close>

definition count_prime_numbers_function :: "(int, int, 's) callable" where
  "count_prime_numbers_function =
     \<lparr>name_attr = Some ''count_prime_numbers'',
      call = (\<lambda>args kwargs w.
        case bind_upper_bound args kwargs of
          Inl e \<Rightarrow> (Inl e, w)
        | Inr upper_bound \<Rightarrow> (count_prime_numbers_body upper_bound, w))\<rparr>"

text \<open>\<open>@with_logging @benchmark def count_prime_numbers\<close>: the name the module binds.\<close>

definition count_prime_numbers :: "'t platform \<Rightarrow> (int, int, 's) callable" where
  "count_prime_numbers pf = with_logging (benchmark pf count_prime_numbers_function)"

section \<open>What the specification calls a prime\<close>

text \<open>
  The specification's own notion, to compare the code with: a prime is an integer greater
  than 1 with no positive divisors other than 1 and itself, and \<open>\<pi>(x)\<close> counts the primes up
  to \<open>x\<close>.
\<close>

definition prime_number :: "int \<Rightarrow> bool" where
  "prime_number n \<longleftrightarrow> 1 < n \<and> (\<forall>d. 0 < d \<and> d dvd n \<longrightarrow> d = 1 \<or> d = n)"

definition prime_pi :: "int \<Rightarrow> int" where
  "prime_pi x = int (card {p. p \<le> x \<and> prime_number p})"

section \<open>Instruments and sample inputs\<close>

text \<open>
  A probe around a callable: it behaves as the callable does on the first component of the
  heap, and appends the arguments of every call it receives to the second. What the probe
  has recorded after a wrapper has run is how often, and with which arguments, the wrapper
  invoked the callable.
\<close>

definition unrecorded :: "('s \<times> 'x) world \<Rightarrow> 's world" where
  "unrecorded w = \<lparr>log = log w, ticks = ticks w, heap = fst (heap w)\<rparr>"

definition recorded_calls :: "('s \<times> 'x) world \<Rightarrow> 'x" where
  "recorded_calls w = snd (heap w)"

definition recording ::
  "('v, 'r, 's) callable \<Rightarrow> ('v, 'r, 's \<times> ('v list \<times> (string \<times> 'v) list) list) callable" where
  "recording f =
     \<lparr>name_attr = name_attr f,
      call = (\<lambda>args kwargs w.
        case call f args kwargs (unrecorded w) of
          (r, w1) \<Rightarrow>
            (r, \<lparr>log = log w1, ticks = ticks w1,
                 heap = (heap w1, recorded_calls w @ [(args, kwargs)])\<rparr>))\<rparr>"

text \<open>A callable whose outcome does not depend on the log or on the timer.\<close>

definition ignores_instrumentation :: "('v, 'r, 's) callable \<Rightarrow> bool" where
  "ignores_instrumentation f \<longleftrightarrow>
     (\<forall>args kwargs w w1. heap w = heap w1 \<longrightarrow>
        fst (call f args kwargs w) = fst (call f args kwargs w1))"

text \<open>
  A world with an empty log and an unused timer, and a sample platform: its timer counts its
  own calls, and its formatter prints every interval as \<open>1.00\<close>.
\<close>

definition fresh_world :: "'s \<Rightarrow> 's world" where
  "fresh_world h = \<lparr>log = [], ticks = 0, heap = h\<rparr>"

definition demo_platform :: "int platform" where
  "demo_platform =
     \<lparr>perf_counter_at = (\<lambda>k. int k), elapsed = (\<lambda>end_time start_time. end_time - start_time),
      format_2f = (\<lambda>t. ''1.00'')\<rparr>"

text \<open>
  Three callables to run the wrappers on: a function \<open>add\<close> that sums its positional
  arguments, the same behaviour in an object without \<open>__name__\<close> (as
  \<open>functools.partial(add)\<close> is), and a function that raises.
\<close>

definition add_function :: "(int, int, 's) callable" where
  "add_function = \<lparr>name_attr = Some ''add'', call = (\<lambda>args kwargs w. (Inr (sum_list args), w))\<rparr>"

definition partial_add :: "(int, int, 's) callable" where
  "partial_add = \<lparr>name_attr = None, call = (\<lambda>args kwargs w. (Inr (sum_list args), w))\<rparr>"

definition failing_function :: "(int, int, 's) callable" where
  "failing_function =
     \<lparr>name_attr = Some ''fail'', call = (\<lambda>args kwargs w. (Inl (Exception ''boom''), w))\<rparr>"

section \<open>Modular exponentiation\<close>

text \<open>
  Square-and-multiply, to compute \<open>a ^ e mod n\<close> with a large exponent; it serves to check
  the certificate of a prime.
\<close>

function mod_power :: "int \<Rightarrow> int \<Rightarrow> int \<Rightarrow> int" where
  "mod_power a e n =
     (if e \<le> 0 then 1 mod n
      else let h = mod_power a (e div 2) n; s = h * h mod n in if even e then s else s * a mod n)"
  by pat_completeness auto
termination
  by (relation "measure (\<lambda>(a, e, n). nat e)") auto

declare mod_power.simps [simp del]

section \<open>Auxiliary facts\<close>

subsection \<open>Integer square root and bit length\<close>

lemma floor_sqrt_bounds:
  "0 \<le> n \<Longrightarrow> 0 \<le> floor_sqrt n \<and> floor_sqrt n * floor_sqrt n \<le> n \<and> n < (floor_sqrt n + 1) * (floor_sqrt n + 1)"
proof (induction n rule: floor_sqrt.induct)
  case (1 n)
  show ?case
  proof (cases "n \<le> 0")
    case True
    with 1 have "n = 0" by simp
    then show ?thesis by (simp add: floor_sqrt.simps)
  next
    case False
    define s where "s = floor_sqrt (n div 4)"
    define q where "q = s * s"
    from False 1 have "0 \<le> n div 4" by simp
    with 1(1) [OF False] have IH: "0 \<le> s" "q \<le> n div 4" "n div 4 < (s + 1) * (s + 1)"
      by (simp_all add: s_def q_def)
    have IH3: "n div 4 < q + 2 * s + 1" using IH(3) by (simp add: algebra_simps q_def)
    have lo: "4 * q \<le> n" and hi: "n < 4 * q + 8 * s + 4" using IH(2) IH3 by presburger+
    have sq1: "(2 * s + 1) * (2 * s + 1) = 4 * q + 4 * s + 1" by (simp add: algebra_simps q_def)
    have sq2: "(2 * s + 1 + 1) * (2 * s + 1 + 1) = 4 * q + 8 * s + 4" by (simp add: algebra_simps q_def)
    have sq0: "(2 * s) * (2 * s) = 4 * q" by (simp add: q_def)
    have unf: "floor_sqrt n = (if (2 * s + 1) * (2 * s + 1) \<le> n then 2 * s + 1 else 2 * s)"
      using False by (subst floor_sqrt.simps) (simp add: s_def Let_def)
    show ?thesis
    proof (cases "(2 * s + 1) * (2 * s + 1) \<le> n")
      case True
      then have "floor_sqrt n = 2 * s + 1" using unf by simp
      then show ?thesis using True IH(1) hi sq2 by simp
    next
      case F2: False
      then have "floor_sqrt n = 2 * s" using unf by simp
      then show ?thesis using F2 IH(1) lo sq0 sq1 by (simp add: algebra_simps)
    qed
  qed
qed

lemma bit_length_bounds:
  "0 < n \<Longrightarrow> 2 ^ (bit_length n - 1) \<le> n \<and> n < 2 ^ bit_length n"
proof (induction n rule: bit_length.induct)
  case (1 n)
  show ?case
  proof (cases "n = 1")
    case True
    have "bit_length 1 = 1" by (simp add: bit_length.simps)
    with True show ?thesis by simp
  next
    case False
    with 1(2) have h: "0 < n div 2" by simp
    from 1(2) have nn: "\<not> n \<le> 0" by simp
    from 1(1) [OF nn h] have IH: "2 ^ (bit_length (n div 2) - 1) \<le> n div 2" "n div 2 < 2 ^ bit_length (n div 2)"
      by simp_all
    have unf: "bit_length n = Suc (bit_length (n div 2))" using nn by (subst bit_length.simps) simp
    have pos: "0 < bit_length (n div 2)" using h by (subst bit_length.simps) simp
    then obtain b where b: "bit_length (n div 2) = Suc b" by (cases "bit_length (n div 2)") auto
    define p :: int where "p = 2 ^ b"
    from IH have "p \<le> n div 2" "n div 2 < 2 * p" unfolding b p_def by simp_all
    then have "2 * p \<le> n \<and> n < 4 * p" by presburger
    then show ?thesis unfolding unf b p_def by simp
  qed
qed

lemma bit_length_le: "n < 2 ^ k \<Longrightarrow> bit_length n \<le> k"
proof (cases "0 < n")
  case True
  assume a: "n < 2 ^ k"
  from bit_length_bounds [OF True] have "(2::int) ^ (bit_length n - 1) < 2 ^ k" using a by linarith
  then have "bit_length n - 1 < k" by simp
  then show ?thesis by simp
next
  case False
  then show ?thesis by (simp add: bit_length.simps)
qed

lemma bit_length_gt: "2 ^ k \<le> n \<Longrightarrow> k < bit_length n"
proof -
  assume a: "2 ^ k \<le> n"
  then have "0 < n" by (smt (verit) zero_less_power)
  from bit_length_bounds [OF this] have "(2::int) ^ k < 2 ^ bit_length n" using a by linarith
  then show ?thesis by simp
qed

subsection \<open>The float square root below \<open>2 ^ 52\<close>\<close>

lemma float_of_int_exact:
  assumes "0 \<le> n" "n < 2 ^ 53"
  shows "float_of_int n = Inr \<lparr>mantissa = n, exponent = 0\<rparr>"
proof -
  have "bit_length \<bar>n\<bar> \<le> 53" using assms by (intro bit_length_le) simp
  then show ?thesis by (simp add: float_of_int_def Let_def)
qed

lemma sq_less_imp_less:
  fixes x y :: int
  assumes "0 \<le> y" "x * x < y * y"
  shows "x < y"
proof (rule ccontr)
  assume "\<not> x < y"
  then have "y \<le> x" by simp
  then have "y * y \<le> x * x" using assms(1) by (intro mult_mono) auto
  with assms(2) show False by simp
qed

lemma scaled_root:
  fixes k n P a :: int
  assumes k: "0 \<le> k" "k * k \<le> n" "n < (k + 1) * (k + 1)"
    and P: "0 < P" "k + 1 \<le> P"
    and a: "0 \<le> a" "a * a \<le> n * (P * P)" "n * (P * P) < (a + 1) * (a + 1)"
  shows "(if a < n * (P * P) - a * a then a + 1 else a) div P = k"
proof -
  define N where "N = n * (P * P)"
  have PP: "0 < P * P" using P(1) by simp
  have "(k * P) * (k * P) = (k * k) * (P * P)" by (simp add: algebra_simps)
  also have "\<dots> \<le> N" unfolding N_def using k(2) PP by (intro mult_right_mono) auto
  finally have "(k * P) * (k * P) < (a + 1) * (a + 1)" using a(3) unfolding N_def by linarith
  then have "k * P < a + 1" using a(1) sq_less_imp_less [of "a + 1" "k * P"] by simp
  then have lo: "k * P \<le> a" by simp
  have "n + 1 \<le> (k + 1) * (k + 1)" using k(3) by simp
  then have "(n + 1) * (P * P) \<le> ((k + 1) * (k + 1)) * (P * P)"
    using PP by (intro mult_right_mono) auto
  then have Nup: "N + P * P \<le> ((k + 1) * P) * ((k + 1) * P)"
    by (simp add: algebra_simps N_def)
  then have "a * a < ((k + 1) * P) * ((k + 1) * P)" using a(2) PP unfolding N_def by linarith
  moreover have "0 \<le> (k + 1) * P" using k(1) P(1) by simp
  ultimately have hi: "a < (k + 1) * P" using sq_less_imp_less [of "(k + 1) * P" a] by simp
  have r_hi: "(if a < N - a * a then a + 1 else a) < (k + 1) * P"
  proof (cases "a < N - a * a")
    case False
    then show ?thesis using hi by simp
  next
    case True
    have "a + 1 \<noteq> (k + 1) * P"
    proof
      assume eq: "a + 1 = (k + 1) * P"
      then have a_eq: "a = (k + 1) * P - 1" by simp
      have "a * a + a = ((k + 1) * P) * ((k + 1) * P) - (k + 1) * P"
        unfolding a_eq by (simp add: algebra_simps)
      with True Nup have "P * P < (k + 1) * P" by linarith
      then have "P < k + 1" using P(1) by simp
      with P(2) show False by simp
    qed
    with hi True show ?thesis by simp
  qed
  have r_lo: "k * P \<le> (if a < N - a * a then a + 1 else a)" using lo by simp
  define r where "r = (if a < N - a * a then a + 1 else a)"
  have "r div P = k"
  proof -
    have b: "0 \<le> r - k * P" "r - k * P < P" using r_lo r_hi by (simp_all add: r_def algebra_simps)
    have "r = P * k + (r - k * P)" by simp
    from int_div_pos_eq [OF this b] show ?thesis .
  qed
  then show ?thesis by (simp add: r_def N_def)
qed

lemma int_sqrt_exact:
  assumes "1 \<le> n" "n < 2 ^ 52"
  shows "\<exists>y. sqrt_double \<lparr>mantissa = n, exponent = 0\<rparr> = Inr y \<and> int_of_double y = floor_sqrt n"
proof -
  define b where "b = bit_length n"
  define j where "j = (106 - int b) div 2"
  define P :: int where "P = 2 ^ nat j"
  define N where "N = n * 4 ^ nat j"
  define a where "a = floor_sqrt N"
  define r where "r = (if a < N - a * a then a + 1 else a)"
  define k where "k = floor_sqrt n"
  have b52: "b \<le> 52" unfolding b_def using assms(2) by (rule bit_length_le)
  then have j27: "27 \<le> j" unfolding j_def by simp
  have "(4::int) ^ nat j = (2 * 2) ^ nat j" by simp
  also have "\<dots> = 2 ^ nat j * 2 ^ nat j" by (rule power_mult_distrib)
  finally have four: "(4::int) ^ nat j = P * P" unfolding P_def .
  have N_eq: "N = n * (P * P)" unfolding N_def four ..
  have Ppos: "0 < P" unfolding P_def by simp
  have "(2::int) ^ 27 \<le> 2 ^ nat j" using j27 by (intro power_increasing) auto
  then have P27: "2 ^ 27 \<le> P" unfolding P_def .
  have n0: "0 \<le> n" using assms(1) by simp
  from floor_sqrt_bounds [OF n0] have k: "0 \<le> k" "k * k \<le> n" "n < (k + 1) * (k + 1)"
    by (simp_all add: k_def)
  have "k < 2 ^ 26"
  proof -
    have "k * k < 2 ^ 26 * 2 ^ 26" using k(2) assms(2) by simp
    then show ?thesis using sq_less_imp_less [of "2 ^ 26" k] by simp
  qed
  then have kP: "k + 1 \<le> P" using P27 by simp
  have N0: "0 \<le> N" unfolding N_eq using n0 Ppos by simp
  from floor_sqrt_bounds [OF N0] have a: "0 \<le> a" "a * a \<le> n * (P * P)" "n * (P * P) < (a + 1) * (a + 1)"
    by (simp_all add: a_def N_eq [symmetric])
  have rk: "r div P = k"
    using scaled_root [OF k Ppos kP a] by (simp add: r_def N_eq)
  have r0: "0 \<le> r" using a(1) by (simp add: r_def)
  have sq: "sqrt_double \<lparr>mantissa = n, exponent = 0\<rparr> = Inr \<lparr>mantissa = r, exponent = - j\<rparr>"
    using assms(1) by (simp add: sqrt_double_def Let_def r_def a_def N_def j_def b_def)
  have "int_of_double \<lparr>mantissa = r, exponent = - j\<rparr> = k"
  proof (cases "r = 0")
    case True
    with rk show ?thesis using j27 by (simp add: int_of_double_def)
  next
    case False
    with r0 have "0 < r" by simp
    then show ?thesis using j27 rk by (simp add: int_of_double_def P_def)
  qed
  with sq show ?thesis by (simp add: k_def)
qed

lemma trial_division_iff:
  "trial_division number xs \<longleftrightarrow> (\<forall>d \<in> set xs. number mod d \<noteq> 0)"
  by (induction xs) auto

lemma is_prime_small:
  assumes "2 \<le> n" "n < 2 ^ 52"
  shows "is_prime n = Inr (\<forall>d. 2 \<le> d \<and> d \<le> floor_sqrt n \<longrightarrow> \<not> d dvd n)"
proof -
  have fl: "float_of_int n = Inr \<lparr>mantissa = n, exponent = 0\<rparr>"
    using assms by (intro float_of_int_exact) auto
  from int_sqrt_exact [of n] assms obtain y where
    y: "sqrt_double \<lparr>mantissa = n, exponent = 0\<rparr> = Inr y" "int_of_double y = floor_sqrt n"
    by auto
  have "is_prime n = Inr (trial_division n (py_range 2 (floor_sqrt n + 1)))"
    using assms(1) by (simp add: is_prime_def fl y)
  also have "trial_division n (py_range 2 (floor_sqrt n + 1)) \<longleftrightarrow>
      (\<forall>d. 2 \<le> d \<and> d \<le> floor_sqrt n \<longrightarrow> \<not> d dvd n)"
    by (auto simp: trial_division_iff py_range_def dvd_eq_mod_eq_0)
  finally show ?thesis .
qed

lemma le_floor_sqrt_iff:
  assumes "0 \<le> n" "0 \<le> d"
  shows "d \<le> floor_sqrt n \<longleftrightarrow> d * d \<le> n"
proof
  from floor_sqrt_bounds [OF assms(1)] have k: "0 \<le> floor_sqrt n" "floor_sqrt n * floor_sqrt n \<le> n"
     "n < (floor_sqrt n + 1) * (floor_sqrt n + 1)" by simp_all
  { assume "d \<le> floor_sqrt n"
    then have "d * d \<le> floor_sqrt n * floor_sqrt n" using assms(2) by (intro mult_mono) auto
    with k(2) show "d * d \<le> n" by simp }
  { assume "d * d \<le> n"
    with k(3) have "d * d < (floor_sqrt n + 1) * (floor_sqrt n + 1)" by simp
    then have "d < floor_sqrt n + 1" using k(1) sq_less_imp_less [of "floor_sqrt n + 1" d] by simp
    then show "d \<le> floor_sqrt n" by simp }
qed

subsection \<open>Rounding and the overflow threshold\<close>

lemma div_less_if:
  fixes n k P :: int
  assumes "0 < P" "n < k * P"
  shows "n div P < k"
proof (rule ccontr)
  assume "\<not> n div P < k"
  then have "k \<le> n div P" by simp
  then have "k * P \<le> (n div P) * P" using assms(1) by (intro mult_right_mono) auto
  also have "\<dots> \<le> n" using assms(1) div_mult_mod_eq [of n P] pos_mod_sign [of P n] by linarith
  finally show False using assms(2) by simp
qed

lemma div_ge_if:
  fixes n k P :: int
  assumes "0 < P" "k * P \<le> n"
  shows "k \<le> n div P"
proof -
  have "k = (k * P) div P" using assms(1) by simp
  also have "\<dots> \<le> n div P" using assms by (intro zdiv_mono1) auto
  finally show ?thesis .
qed

lemma round_half_even_bounds:
  assumes "0 \<le> n"
  shows "n div 2 ^ s \<le> round_half_even n s" "round_half_even n s \<le> n div 2 ^ s + 1"
  by (simp_all add: round_half_even_def Let_def)

lemma round_half_even_nonneg: "0 \<le> n \<Longrightarrow> 0 \<le> round_half_even n s"
proof -
  assume a: "0 \<le> n"
  then have "0 \<le> n div 2 ^ s" by (simp add: pos_imp_zdiv_nonneg_iff)
  with round_half_even_bounds(1) [OF a, of s] show ?thesis by simp
qed

text \<open>The top of a binade rounds up into the next one.\<close>

lemma round_half_even_top:
  fixes n :: int
  assumes "(2 * 2 ^ 53 - 1) * 2 ^ s \<le> n" "n < 2 ^ 53 * (2 * 2 ^ s)"
  shows "round_half_even n (Suc s) = 2 ^ 53"
proof -
  define P :: int where "P = 2 ^ s"
  define q where "q = n div (2 * P)"
  define r where "r = n mod (2 * P)"
  have P: "0 < P" by (simp add: P_def)
  have n: "n = q * (2 * P) + r" unfolding q_def r_def by (rule div_mult_mod_eq [symmetric])
  have r: "0 \<le> r" "r < 2 * P" using P by (simp_all add: r_def)
  have a1: "(2 * 2 ^ 53 - 1) * P \<le> n" using assms(1) by (simp add: P_def)
  have "(2 ^ 53 - 1) * (2 * P) \<le> n" using a1 P by simp
  then have "2 ^ 53 - 1 \<le> q" unfolding q_def using P by (intro div_ge_if) auto
  moreover have "q < 2 ^ 53" unfolding q_def using P assms(2) by (intro div_less_if) (auto simp: P_def)
  ultimately have q: "q = 2 ^ 53 - 1" by simp
  have "r = n - (2 ^ 53 - 1) * (2 * P)" using n q by simp
  then have rge: "P \<le> r" using a1 by simp
  have oddq: "odd q" unfolding q by simp
  show ?thesis
    using rge oddq q
    by (simp add: round_half_even_def Let_def q_def [symmetric] r_def [symmetric] P_def [symmetric])
qed

lemma round_half_even_below_top:
  fixes n :: int
  assumes "0 \<le> n" "n < (2 * 2 ^ 53 - 1) * 2 ^ s"
  shows "round_half_even n (Suc s) < 2 ^ 53"
proof -
  define P :: int where "P = 2 ^ s"
  define q where "q = n div (2 * P)"
  define r where "r = n mod (2 * P)"
  have P: "0 < P" by (simp add: P_def)
  have n: "n = q * (2 * P) + r" unfolding q_def r_def by (rule div_mult_mod_eq [symmetric])
  have r: "0 \<le> r" "r < 2 * P" using P by (simp_all add: r_def)
  have a2: "n < (2 * 2 ^ 53 - 1) * P" using assms(2) by (simp add: P_def)
  have "n < 2 ^ 53 * (2 * P)" using a2 P by simp
  then have qlt: "q < 2 ^ 53" unfolding q_def using P by (intro div_less_if) auto
  show ?thesis
  proof (cases "q = 2 ^ 53 - 1")
    case True
    have "r = n - (2 ^ 53 - 1) * (2 * P)" using n True by simp
    then have "r < P" using a2 by simp
    then show ?thesis using True
      by (simp add: round_half_even_def Let_def q_def [symmetric] r_def [symmetric] P_def [symmetric])
  next
    case False
    with qlt have "q + 1 < 2 ^ 53" by simp
    with round_half_even_bounds(2) [OF assms(1), of "Suc s"] show ?thesis
      by (simp add: q_def P_def)
  qed
qed

lemma float_of_int_overflow:
  assumes "2 ^ 1024 - 2 ^ 970 \<le> n"
  shows "float_of_int n = Inl OverflowError"
proof -
  define b where "b = bit_length \<bar>n\<bar>"
  define s where "s = b - 53"
  define m where "m = round_half_even \<bar>n\<bar> s"
  have npos: "0 < n" using assms by simp
  then have abs: "\<bar>n\<bar> = n" by simp
  have "2 ^ 1023 \<le> n" using assms by simp
  then have b1023: "1023 < b" unfolding b_def abs by (rule bit_length_gt)
  have over: "2 ^ 1024 \<le> m * 2 ^ s"
  proof (cases "n < 2 ^ 1024")
    case True
    then have "b \<le> 1024" unfolding b_def abs by (rule bit_length_le)
    with b1023 have s: "s = Suc 970" by (simp add: s_def)
    have "(2 * 2 ^ 53 - 1) * 2 ^ 970 \<le> n" using assms by simp
    moreover have "n < 2 ^ 53 * (2 * 2 ^ 970)" using True by simp
    ultimately have "m = 2 ^ 53" unfolding m_def abs s by (rule round_half_even_top)
    then show ?thesis by (simp add: s)
  next
    case False
    then have "2 ^ 1024 \<le> n" by simp
    then have "1024 < b" unfolding b_def abs by (rule bit_length_gt)
    then have bs: "b - 1 = s + 52" by (simp add: s_def)
    from bit_length_bounds [OF npos] have "2 ^ (b - 1) \<le> n" by (simp add: b_def abs)
    then have "2 ^ 52 * 2 ^ s \<le> n" unfolding bs by (simp add: power_add mult.commute)
    then have "2 ^ 52 \<le> n div 2 ^ s" by (intro div_ge_if) auto
    also have "\<dots> \<le> m" unfolding m_def abs using npos by (intro round_half_even_bounds) auto
    finally have A: "2 ^ 52 * 2 ^ s \<le> m * 2 ^ s" by (intro mult_right_mono) auto
    have B: "(2::int) ^ 1024 \<le> 2 ^ (s + 52)" using \<open>1024 < b\<close> bs by (intro power_increasing) auto
    have C: "(2::int) ^ (s + 52) = 2 ^ 52 * 2 ^ s" by (simp only: power_add mult.commute)
    from A B C show ?thesis by linarith
  qed
  have "\<not> b \<le> 53" using b1023 by simp
  then show ?thesis using over
    unfolding float_of_int_def Let_def m_def s_def b_def by (simp only: if_False if_True)
qed

lemma float_of_int_finite:
  assumes "0 \<le> n" "n < 2 ^ 1024 - 2 ^ 970"
  shows "\<exists>x. float_of_int n = Inr x \<and> 0 \<le> mantissa x"
proof -
  define b where "b = bit_length \<bar>n\<bar>"
  define s where "s = b - 53"
  define m where "m = round_half_even \<bar>n\<bar> s"
  have abs: "\<bar>n\<bar> = n" using assms(1) by simp
  have m0: "0 \<le> m" unfolding m_def abs using assms(1) by (rule round_half_even_nonneg)
  have "n < 2 ^ 1024" using assms(2) by simp
  then have b1024: "b \<le> 1024" unfolding b_def abs by (rule bit_length_le)
  show ?thesis
  proof (cases "b \<le> 53")
    case True
    then have "bit_length \<bar>n\<bar> \<le> 53" by (simp add: b_def)
    then have "float_of_int n = Inr \<lparr>mantissa = n, exponent = 0\<rparr>"
      by (simp add: float_of_int_def Let_def)
    then show ?thesis using assms(1) by simp
  next
    case False
    then have npos: "0 < n" using assms(1) by (cases "n = 0") (auto simp: b_def bit_length.simps)
    have under: "m * 2 ^ s < 2 ^ 1024"
    proof (cases "b = 1024")
      case True
      then have s: "s = Suc 970" by (simp add: s_def)
      have "n < (2 * 2 ^ 53 - 1) * 2 ^ 970" using assms(2) by simp
      with assms(1) have "m < 2 ^ 53" unfolding m_def abs s by (rule round_half_even_below_top)
      then have "m * 2 ^ 971 < 2 ^ 53 * 2 ^ 971" by (intro mult_strict_right_mono) auto
      then show ?thesis by (simp add: s)
    next
      case F: False
      with b1024 False have s970: "s \<le> 970" and bs: "b = s + 53" by (simp_all add: s_def)
      from bit_length_bounds [OF npos] have "n < 2 ^ (s + 53)" by (simp add: b_def abs bs [symmetric])
      then have "n < 2 ^ 53 * 2 ^ s" by (simp add: power_add mult.commute)
      then have "n div 2 ^ s < 2 ^ 53" by (intro div_less_if) auto
      moreover have "m \<le> n div 2 ^ s + 1"
        unfolding m_def abs using assms(1) by (intro round_half_even_bounds) auto
      ultimately have "m \<le> 2 ^ 53" by simp
      then have "m * 2 ^ s \<le> 2 ^ 53 * 2 ^ s" by (intro mult_right_mono) auto
      also have "\<dots> \<le> 2 ^ 53 * (2::int) ^ 970" using s970 by (intro mult_left_mono power_increasing) auto
      also have "\<dots> < 2 ^ 1024" by simp
      finally show ?thesis .
    qed
    then have nov: "\<not> 2 ^ 1024 \<le> m * 2 ^ s" by simp
    have "float_of_int n = Inr \<lparr>mantissa = sgn n * m, exponent = int s\<rparr>"
      using False nov unfolding float_of_int_def Let_def m_def s_def b_def by (simp only: if_False)
    moreover have "0 \<le> sgn n * m" using m0 npos by simp
    ultimately show ?thesis by simp
  qed
qed

lemma sqrt_double_nonneg: "0 \<le> mantissa x \<Longrightarrow> \<exists>y. sqrt_double x = Inr y"
  by (simp add: sqrt_double_def Let_def)

lemma is_prime_overflow:
  assumes "2 ^ 1024 - 2 ^ 970 \<le> n"
  shows "is_prime n = Inl OverflowError"
proof -
  have "\<not> n < 2" using assms by simp
  then show ?thesis by (simp add: is_prime_def float_of_int_overflow [OF assms])
qed

lemma is_prime_returns:
  assumes "n < 2 ^ 1024 - 2 ^ 970"
  shows "\<exists>p. is_prime n = Inr p"
proof (cases "n < 2")
  case True
  then have "is_prime n = Inr False" by (simp add: is_prime_def)
  then show ?thesis ..
next
  case False
  then have "0 \<le> n" by simp
  from float_of_int_finite [OF this assms] obtain x where x: "float_of_int n = Inr x" "0 \<le> mantissa x"
    by blast
  from sqrt_double_nonneg [OF x(2)] obtain y where "sqrt_double x = Inr y" ..
  with x(1) False show ?thesis by (simp add: is_prime_def)
qed

subsection \<open>The float square root up to \<open>2 ^ 106\<close>\<close>

text \<open>
  From \<open>2 ^ 52\<close> on the truncated float square root can exceed the integer square root (as
  it does at \<open>2 ^ 52 + 2 ^ 27\<close>), but below \<open>2 ^ 106\<close> it never falls below it, and it stays
  below the number itself: the divisors tried beyond the integer square root are proper
  divisors, so the verdict of the trial division is the same. Above \<open>2 ^ 106\<close> the float
  square root can fall below the integer square root, and the trial division then stops
  short of it. It does at the square of \<open>2 ^ 53 + 1\<close>, where the verdict is still right
  because 3 divides that number, and at the square of the prime \<open>2 ^ 53 + 5\<close>, where it is
  wrong.
\<close>

lemma float_root_above_integer_root:
  "float_of_int (2 ^ 52 + 2 ^ 27) = Inr \<lparr>mantissa = 2 ^ 52 + 2 ^ 27, exponent = 0\<rparr> \<and>
   sqrt_double \<lparr>mantissa = 2 ^ 52 + 2 ^ 27, exponent = 0\<rparr> =
     Inr \<lparr>mantissa = 2 ^ 52 + 2 ^ 26, exponent = - 26\<rparr> \<and>
   int_of_double \<lparr>mantissa = 2 ^ 52 + 2 ^ 26, exponent = - 26\<rparr> = 2 ^ 26 + 1 \<and>
   floor_sqrt (2 ^ 52 + 2 ^ 27) = 2 ^ 26"
  by code_simp

text \<open>Rounding the square root of \<open>X * Q\<^sup>2\<close> to nearest does not fall below \<open>k * Q\<close>.\<close>

lemma rounded_root_ge:
  fixes X Q k a :: int
  assumes Q: "0 < Q" and k: "1 \<le> k"
    and close: "(k * k - X) * Q < k"
    and a: "0 \<le> a" "X * (Q * Q) < (a + 1) * (a + 1)"
  shows "k * Q \<le> (if a < X * (Q * Q) - a * a then a + 1 else a)"
proof (rule ccontr)
  define N where "N = X * (Q * Q)"
  define K where "K = k * Q"
  define r where "r = (if a < N - a * a then a + 1 else a)"
  assume "\<not> k * Q \<le> (if a < X * (Q * Q) - a * a then a + 1 else a)"
  then have rK: "r < K" by (simp add: r_def N_def K_def)
  have K1: "1 \<le> K" unfolding K_def using Q k by (simp add: mult_le_cancel_left1 pos_add_strict mult_pos_pos int_one_le_iff_zero_less)
  have NK: "N \<le> K * K - K"
  proof (cases "a < N - a * a")
    case True
    with rK have "a + 1 < K" by (simp add: r_def)
    then have "a + 1 \<le> K - 1" by simp
    then have "(a + 1) * (a + 1) \<le> (K - 1) * (K - 1)" using a(1) by (intro mult_mono) auto
    also have "\<dots> = K * K - 2 * K + 1" by (simp add: algebra_simps)
    finally show ?thesis using a(2) K1 by (simp add: N_def)
  next
    case False
    with rK have aK: "a + 1 \<le> K" by (simp add: r_def)
    from False have "N \<le> a * a + a" by simp
    also have "\<dots> = a * (a + 1)" by (simp add: algebra_simps)
    also have "\<dots> \<le> (K - 1) * K" using aK a(1) by (intro mult_mono) auto
    also have "\<dots> = K * K - K" by (simp add: algebra_simps)
    finally show ?thesis .
  qed
  have "K * K - K - N = ((k * k - X) * Q - k) * Q" by (simp add: K_def N_def algebra_simps)
  with NK have "0 \<le> ((k * k - X) * Q - k) * Q" by simp
  then have "0 \<le> (k * k - X) * Q - k" using Q by (simp add: zero_le_mult_iff)
  with close show False by simp
qed

lemma float_of_int_shape:
  assumes "2 ^ 52 \<le> n" "n < 2 ^ 106"
  shows "\<exists>M s. float_of_int n = Inr \<lparr>mantissa = M, exponent = int s\<rparr> \<and>
     2 ^ 52 \<le> M \<and> M \<le> 2 ^ 53 \<and> s \<le> 53 \<and> 2 ^ (s + 52) \<le> n \<and>
     2 * (n - M * 2 ^ s) \<le> 2 ^ s \<and> M * 2 ^ s \<le> 2 * n"
proof -
  define b where "b = bit_length \<bar>n\<bar>"
  have npos: "0 < n" using assms(1) by (smt (verit) zero_less_power)
  then have abs: "\<bar>n\<bar> = n" by simp
  have b52: "52 < b" unfolding b_def abs using assms(1) by (rule bit_length_gt)
  have b106: "b \<le> 106" unfolding b_def abs using assms(2) by (rule bit_length_le)
  from bit_length_bounds [OF npos] have bb: "2 ^ (b - 1) \<le> n" "n < 2 ^ b" by (simp_all add: b_def abs)
  show ?thesis
  proof (cases "b \<le> 53")
    case True
    with b52 have b: "b = 53" by simp
    have "bit_length \<bar>n\<bar> \<le> 53" using True by (simp add: b_def)
    then have "float_of_int n = Inr \<lparr>mantissa = n, exponent = int 0\<rparr>"
      by (simp add: float_of_int_def Let_def)
    moreover have "n < 2 ^ 53" using bb(2) b by simp
    ultimately show ?thesis using assms(1) npos
      by (intro exI [of _ n] exI [of _ "0::nat"]) simp
  next
    case False
    define s where "s = b - 53"
    define P :: int where "P = 2 ^ s"
    define q where "q = n div P"
    define r where "r = n mod P"
    define M where "M = round_half_even \<bar>n\<bar> s"
    have s: "1 \<le> s" "s \<le> 53" "b - 1 = s + 52" "b = s + 53" using False b106 by (simp_all add: s_def)
    have P: "0 < P" by (simp add: P_def)
    have n: "n = q * P + r" unfolding q_def r_def by (rule div_mult_mod_eq [symmetric])
    have r: "0 \<le> r" "r < P" using P by (simp_all add: r_def)
    have lo: "2 ^ 52 * P \<le> n" using bb(1) unfolding s(3) P_def by (simp add: power_add mult.commute)
    have hi: "n < 2 ^ 53 * P" using bb(2) unfolding s(4) P_def by (simp add: power_add mult.commute)
    have q52: "2 ^ 52 \<le> q" unfolding q_def using P lo by (rule div_ge_if)
    have q53: "q < 2 ^ 53" unfolding q_def using P hi by (rule div_less_if)
    have Mq: "q \<le> M" "M \<le> q + 1"
      using round_half_even_bounds [of n s] npos by (simp_all add: M_def abs q_def P_def)
    have M53: "M \<le> 2 ^ 53" using Mq(2) q53 by simp
    have "M * P \<le> 2 ^ 53 * P" using M53 P by (intro mult_right_mono) auto
    also have "\<dots> \<le> 2 ^ 53 * 2 ^ 53" unfolding P_def using s(2) by (intro mult_left_mono power_increasing) auto
    also have "\<dots> < (2::int) ^ 1024" by simp
    finally have nov: "\<not> 2 ^ 1024 \<le> M * 2 ^ s" by (simp add: P_def)
    have fl: "float_of_int n = Inr \<lparr>mantissa = sgn n * M, exponent = int s\<rparr>"
      using False nov unfolding float_of_int_def Let_def M_def s_def b_def by (simp only: if_False)
    have err: "2 * (n - M * P) \<le> P"
    proof (cases "M = q")
      case True
      have "\<not> (P < 2 * r)"
      proof
        assume "P < 2 * r"
        then have "round_half_even n s = q + 1"
          by (simp add: round_half_even_def Let_def q_def [symmetric] r_def [symmetric] P_def [symmetric])
        with True show False by (simp add: M_def abs)
      qed
      then show ?thesis using n True by simp
    next
      case False
      with Mq have "M = q + 1" by simp
      then have "n - M * P = r - P" using n by (simp add: algebra_simps)
      then show ?thesis using r P by simp
    qed
    have "M * P \<le> (q + 1) * P" using Mq(2) P by (intro mult_right_mono) auto
    also have "\<dots> = q * P + P" by (simp add: algebra_simps)
    also have "\<dots> \<le> n + P" using n r by simp
    finally have up: "M * P \<le> 2 * n" using lo P by simp
    have "2 ^ (s + 52) \<le> n" using bb(1) s(3) by simp
    then show ?thesis using fl npos q52 Mq(1) M53 s(2) err up
      by (intro exI [of _ M] exI [of _ s]) (simp add: P_def)
  qed
qed

lemma four_power: "(4::int) ^ h = 2 ^ h * 2 ^ h"
proof -
  have "(4::int) ^ h = (2 * 2) ^ h" by simp
  also have "\<dots> = 2 ^ h * 2 ^ h" by (rule power_mult_distrib)
  finally show ?thesis .
qed

lemma sqrt_double_shape:
  fixes m :: int and s :: nat
  assumes m: "0 < m"
    and hj: "int (s div 2) \<le> (106 - int (bit_length (if even s then m else 2 * m))) div 2"
  shows "\<exists>Q. 0 < Q \<and> m * 2 ^ s * (Q * Q) < 2 ^ 106 \<and>
     (\<exists>y. sqrt_double \<lparr>mantissa = m, exponent = int s\<rparr> = Inr y \<and>
        int_of_double y =
          (let N = m * 2 ^ s * (Q * Q); a = floor_sqrt N
           in (if a < N - a * a then a + 1 else a) div Q))"
proof -
  define m2 where "m2 = (if even s then m else 2 * m)"
  define h where "h = s div 2"
  define L where "L = bit_length m2"
  define j where "j = (106 - int L) div 2"
  define J where "J = nat j"
  define Q :: int where "Q = 2 ^ (J - h)"
  define N where "N = m2 * 4 ^ J"
  define a where "a = floor_sqrt N"
  define r where "r = (if a < N - a * a then a + 1 else a)"
  have hj': "int h \<le> j" using hj by (simp add: h_def j_def L_def m2_def)
  then have j0: "0 \<le> j" and hJ: "h \<le> J" by (simp_all add: J_def)
  have Q: "0 < Q" by (simp add: Q_def)
  have m2pos: "0 < m2" using m by (simp add: m2_def)
  have X: "m * 2 ^ s = m2 * 4 ^ h"
  proof (cases "even s")
    case True
    then have "s = h + h" by (auto simp: h_def elim: evenE)
    then have "(2::int) ^ s = 2 ^ h * 2 ^ h" by (simp add: power_add)
    then show ?thesis using True by (simp add: m2_def four_power)
  next
    case False
    then have "s = Suc (h + h)" by (auto simp: h_def elim: oddE)
    then have "(2::int) ^ s = 2 * (2 ^ h * 2 ^ h)" by (simp add: power_add)
    then show ?thesis using False by (simp add: m2_def four_power)
  qed
  have QQ: "Q * Q = 4 ^ (J - h)" by (simp add: Q_def four_power)
  have "(4::int) ^ h * 4 ^ (J - h) = 4 ^ (h + (J - h))" by (simp only: power_add)
  then have "(4::int) ^ h * 4 ^ (J - h) = 4 ^ J" using hJ by simp
  then have N_eq: "N = m * 2 ^ s * (Q * Q)" by (simp add: N_def X QQ mult.assoc)
  have mL: "m2 < 2 ^ L" using bit_length_bounds [OF m2pos] by (simp add: L_def)
  have fJ: "(4::int) ^ J = 2 ^ (J + J)" by (simp add: four_power power_add)
  have "L + (J + J) \<le> 106" using j0 by (simp add: J_def j_def)
  then have le106: "(2::int) ^ L * 2 ^ (J + J) \<le> 2 ^ 106"
    unfolding power_add [symmetric] by (intro power_increasing) auto
  have "m2 * 2 ^ (J + J) < 2 ^ L * (2::int) ^ (J + J)"
    using mL by (intro mult_strict_right_mono) auto
  then have "m2 * 2 ^ (J + J) < (2::int) ^ 106" using le106 by (rule less_le_trans)
  then have N106: "N < 2 ^ 106" unfolding N_def fJ .
  have N0: "0 \<le> N" using m2pos by (simp add: N_def)
  from floor_sqrt_bounds [OF N0] have a0: "0 \<le> a" by (simp add: a_def)
  then have r0: "0 \<le> r" by (simp add: r_def)
  have e2: "(if even (int s) then int s else int s - 1) div 2 = int h"
    by (cases "even s") (auto simp: h_def elim!: evenE oddE)
  have sq: "sqrt_double \<lparr>mantissa = m, exponent = int s\<rparr> = Inr \<lparr>mantissa = r, exponent = int h - j\<rparr>"
    using m e2
    by (simp add: sqrt_double_def Let_def r_def a_def N_def J_def j_def L_def m2_def)
  have "int_of_double \<lparr>mantissa = r, exponent = int h - j\<rparr> = r div Q"
  proof (cases "0 \<le> int h - j")
    case True
    with hj' have jh: "j = int h" by simp
    then have "J = h" by (simp add: J_def)
    then show ?thesis by (simp add: int_of_double_def Q_def jh)
  next
    case False
    then have "nat (j - int h) = J - h" by (simp add: J_def)
    then show ?thesis using False r0 by (cases "r = 0") (simp_all add: int_of_double_def Q_def)
  qed
  with sq Q N106 show ?thesis
    unfolding N_eq [symmetric] r_def a_def
    by (intro exI [of _ Q]) (simp add: Let_def N_eq)
qed

lemma sqrt_double_top: 
  "sqrt_double \<lparr>mantissa = 2 ^ 53, exponent = 53\<rparr> = Inr \<lparr>mantissa = 2 ^ 52, exponent = 1\<rparr>"
  by code_simp

lemma float_sqrt_between:
  assumes "2 ^ 52 \<le> n" "n < 2 ^ 106"
  shows "\<exists>x y. float_of_int n = Inr x \<and> sqrt_double x = Inr y \<and>
     floor_sqrt n \<le> int_of_double y \<and> int_of_double y < n"
proof -
  define k where "k = floor_sqrt n"
  have n0: "0 \<le> n" using assms(1) by (smt (verit) zero_le_power)
  from floor_sqrt_bounds [OF n0] have k: "0 \<le> k" "k * k \<le> n" "n < (k + 1) * (k + 1)"
    by (simp_all add: k_def)
  have "(2 ^ 26 \<le> floor_sqrt n) = ((2::int) ^ 26 * 2 ^ 26 \<le> n)" by (rule le_floor_sqrt_iff [OF n0]) simp
  then have k26: "2 ^ 26 \<le> k" using assms(1) by (simp add: k_def)
  have "k * k < 2 ^ 53 * 2 ^ 53" using k(2) assms(2) by simp
  then have k53: "k < 2 ^ 53" using sq_less_imp_less [of "2 ^ 53" k] by simp
  from float_of_int_shape [OF assms] obtain M s where
    fl: "float_of_int n = Inr \<lparr>mantissa = M, exponent = int s\<rparr>"
    and M: "2 ^ 52 \<le> M" "M \<le> 2 ^ 53" and s: "s \<le> 53" and ns: "2 ^ (s + 52) \<le> n"
    and err: "2 * (n - M * 2 ^ s) \<le> 2 ^ s" and up: "M * 2 ^ s \<le> 2 * n"
    by blast
  show ?thesis
  proof (cases "M = 2 ^ 53 \<and> s = 53")
    case True
    then have "(2::int) ^ 105 \<le> n" using ns by simp
    then have "2 ^ 53 < n" by simp
    moreover have "int_of_double \<lparr>mantissa = 2 ^ 52, exponent = 1\<rparr> = 2 ^ 53"
      by (simp add: int_of_double_def)
    ultimately show ?thesis using fl True sqrt_double_top k53 by (simp add: k_def)
  next
    case False
    define X where "X = M * 2 ^ s"
    define m2 where "m2 = (if even s then M else 2 * M)"
    have Mpos: "0 < M" using M(1) by (smt (verit) zero_less_power)
    have "int (s div 2) \<le> (106 - int (bit_length m2)) div 2"
    proof (cases "odd s \<and> M = 2 ^ 53")
      case True
      with False s have "s \<le> 52" by simp
      with True have "s \<le> 51" by (cases "s = 52") auto
      then have h: "s div 2 \<le> 25" by simp
      have "m2 < 2 ^ 55" using True by (simp add: m2_def)
      then have "bit_length m2 \<le> 55" by (rule bit_length_le)
      then show ?thesis using h by simp
    next
      case F: False
      have h: "s div 2 \<le> 26" using s by simp
      have "m2 < 2 ^ 54" using F M(2) by (auto simp: m2_def)
      then have "bit_length m2 \<le> 54" by (rule bit_length_le)
      then show ?thesis using h by simp
    qed
    from sqrt_double_shape [OF Mpos this [unfolded m2_def]] obtain Q y where
      Q: "0 < Q" and N106: "X * (Q * Q) < 2 ^ 106"
      and sq: "sqrt_double \<lparr>mantissa = M, exponent = int s\<rparr> = Inr y"
      and iy: "int_of_double y =
          (let N = X * (Q * Q); a = floor_sqrt N in (if a < N - a * a then a + 1 else a) div Q)"
      unfolding X_def by blast
    define N where "N = X * (Q * Q)"
    define a where "a = floor_sqrt N"
    define r where "r = (if a < N - a * a then a + 1 else a)"
    have d: "int_of_double y = r div Q" using iy by (simp add: Let_def r_def a_def N_def)
    have Xlo: "2 ^ 52 * 2 ^ s \<le> X" unfolding X_def using M(1) by (intro mult_right_mono) auto
    then have X0: "0 \<le> X" by (smt (verit) zero_le_power mult_nonneg_nonneg)
    have QQ: "0 < Q * Q" using Q by simp
    have N0: "0 \<le> N" unfolding N_def using X0 QQ by simp
    from floor_sqrt_bounds [OF N0] have a: "0 \<le> a" "a * a \<le> N" "N < (a + 1) * (a + 1)"
      by (simp_all add: a_def)
    \<comment> \<open>the lower bound\<close>
    have close: "(k * k - X) * Q < k"
    proof (cases "k * k \<le> X")
      case True
      then have "(k * k - X) * Q \<le> 0" using Q by (simp add: mult_le_0_iff)
      then show ?thesis using k26 by simp
    next
      case F: False
      define D where "D = k * k - X"
      have D0: "0 < D" using F by (simp add: D_def)
      have D2: "2 * D \<le> 2 ^ s" using err k(2) by (simp add: D_def X_def)
      have "2 ^ 52 * 2 ^ s * (Q * Q) \<le> X * (Q * Q)" using Xlo QQ by (intro mult_right_mono) auto
      then have sQ: "2 ^ s * (Q * Q) < 2 ^ 54" using N106 by simp
      have "(2 * D) * (2 * D) \<le> 2 ^ s * 2 ^ s" using D2 D0 by (intro mult_mono) auto
      then have "(2 * D) * (2 * D) * (Q * Q) \<le> 2 ^ s * 2 ^ s * (Q * Q)"
        using QQ by (intro mult_right_mono) auto
      also have "\<dots> = 2 ^ s * (2 ^ s * (Q * Q))" by simp
      also have "\<dots> < 2 ^ s * 2 ^ 54" using sQ by (intro mult_strict_left_mono) auto
      also have "\<dots> = 4 * (2 ^ 52 * 2 ^ s)" by simp
      also have "\<dots> \<le> 4 * X" using Xlo by simp
      also have "\<dots> < 4 * (k * k)" using F by simp
      finally have "(D * Q) * (D * Q) < k * k" by (simp add: algebra_simps)
      then have "D * Q < k" using k(1) sq_less_imp_less [of k "D * Q"] by simp
      then show ?thesis by (simp add: D_def)
    qed
    have k1: "1 \<le> k" using k26 by simp
    have "k * Q \<le> r"
      using rounded_root_ge [OF Q k1 close a(1) a(3) [unfolded N_def]] by (simp add: r_def N_def)
    then have lower: "k \<le> r div Q" using Q by (intro div_ge_if) auto
    \<comment> \<open>the upper bound\<close>
    have upper: "r div Q < n"
    proof (rule ccontr)
      assume "\<not> r div Q < n"
      then have nd: "n \<le> r div Q" by simp
      have "r div Q * Q \<le> r" using Q div_mult_mod_eq [of r Q] pos_mod_sign [of Q r] by linarith
      moreover have "n * Q \<le> r div Q * Q" using nd Q by (intro mult_right_mono) auto
      moreover have "r \<le> a + 1" by (simp add: r_def)
      ultimately have "n * Q - 1 \<le> a" by simp
      moreover have "(n - 1) * Q \<le> n * Q - 1" using Q by (simp add: algebra_simps)
      ultimately have le: "(n - 1) * Q \<le> a" by simp
      have n1: "0 \<le> (n - 1) * Q" using assms(1) Q by simp
      have "((n - 1) * Q) * ((n - 1) * Q) \<le> a * a" using le n1 by (intro mult_mono) auto
      with a(2) have "((n - 1) * (n - 1)) * (Q * Q) \<le> X * (Q * Q)" by (simp add: N_def algebra_simps)
      then have "(n - 1) * (n - 1) \<le> X" using QQ by (simp only: mult_le_cancel_right_pos)
      with up have le2: "(n - 1) * (n - 1) \<le> 2 * n" by (simp add: X_def)
      have "5 \<le> n - 1" using assms(1) by simp
      then have "5 * (n - 1) \<le> (n - 1) * (n - 1)" by (intro mult_right_mono) auto
      with le2 assms(1) show False by simp
    qed
    show ?thesis using fl sq lower upper by (simp add: d k_def)
  qed
qed

lemma is_prime_by_root:
  assumes "2 \<le> n" "n < 2 ^ 106"
  shows "is_prime n = Inr (\<forall>d. 2 \<le> d \<and> d \<le> floor_sqrt n \<longrightarrow> \<not> d dvd n)"
proof (cases "n < 2 ^ 52")
  case True
  with assms(1) show ?thesis by (rule is_prime_small)
next
  case False
  then have "2 ^ 52 \<le> n" by simp
  from float_sqrt_between [OF this assms(2)] obtain x y where
    x: "float_of_int n = Inr x" and y: "sqrt_double x = Inr y"
    and lo: "floor_sqrt n \<le> int_of_double y" and hi: "int_of_double y < n"
    by blast
  define k where "k = floor_sqrt n"
  define i where "i = int_of_double y"
  have n0: "0 \<le> n" using assms(1) by simp
  from floor_sqrt_bounds [OF n0] have k: "0 \<le> k" "n < (k + 1) * (k + 1)" by (simp_all add: k_def)
  have "is_prime n = Inr (trial_division n (py_range 2 (i + 1)))"
    using assms(1) by (simp add: is_prime_def x y i_def)
  also have "trial_division n (py_range 2 (i + 1)) \<longleftrightarrow> (\<forall>d. 2 \<le> d \<and> d \<le> i \<longrightarrow> \<not> d dvd n)"
    by (auto simp: trial_division_iff py_range_def dvd_eq_mod_eq_0)
  also have "\<dots> \<longleftrightarrow> (\<forall>d. 2 \<le> d \<and> d \<le> k \<longrightarrow> \<not> d dvd n)"
  proof
    assume "\<forall>d. 2 \<le> d \<and> d \<le> i \<longrightarrow> \<not> d dvd n"
    then show "\<forall>d. 2 \<le> d \<and> d \<le> k \<longrightarrow> \<not> d dvd n" using lo by (auto simp: k_def i_def)
  next
    assume small: "\<forall>d. 2 \<le> d \<and> d \<le> k \<longrightarrow> \<not> d dvd n"
    show "\<forall>d. 2 \<le> d \<and> d \<le> i \<longrightarrow> \<not> d dvd n"
    proof (intro allI impI notI)
      fix d assume d: "2 \<le> d \<and> d \<le> i" and dv: "d dvd n"
      from dv obtain e where e: "n = d * e" by (auto simp: dvd_def)
      have dn: "d < n" using d hi by (simp add: i_def)
      have "0 < d * e" using e assms(1) by simp
      then have epos: "0 < e" using d by (simp add: zero_less_mult_iff)
      have "e \<noteq> 1" using e dn by auto
      with epos have e2: "2 \<le> e" by simp
      have "e dvd n" using e by simp
      with small e2 have "\<not> e \<le> k" by blast
      moreover from small d dv have "\<not> d \<le> k" by blast
      ultimately have "k + 1 \<le> d" "k + 1 \<le> e" by simp_all
      then have "(k + 1) * (k + 1) \<le> d * e" using k(1) by (intro mult_mono) auto
      with k(2) e show False by simp
    qed
  qed
  finally show ?thesis by (simp add: k_def)
qed

lemma float_root_below_integer_root:
  "float_of_int ((2 ^ 53 + 1) * (2 ^ 53 + 1)) = Inr \<lparr>mantissa = 2 ^ 52 + 1, exponent = 54\<rparr> \<and>
   sqrt_double \<lparr>mantissa = 2 ^ 52 + 1, exponent = 54\<rparr> = Inr \<lparr>mantissa = 2 ^ 52, exponent = 1\<rparr> \<and>
   int_of_double \<lparr>mantissa = 2 ^ 52, exponent = 1\<rparr> = 2 ^ 53 \<and>
   floor_sqrt ((2 ^ 53 + 1) * (2 ^ 53 + 1)) = 2 ^ 53 + 1"
  by code_simp

subsection \<open>The primality test against the specification's primes\<close>

lemma floor_sqrt_less:
  assumes "2 \<le> n" shows "floor_sqrt n < n"
proof (rule ccontr)
  assume "\<not> floor_sqrt n < n"
  then have le: "n \<le> floor_sqrt n" by simp
  have n0: "0 \<le> n" using assms by simp
  from floor_sqrt_bounds [OF n0] have k: "floor_sqrt n * floor_sqrt n \<le> n" by simp
  have "n * n \<le> floor_sqrt n * floor_sqrt n" using le n0 by (intro mult_mono) auto
  with k have "n * n \<le> n * 1" by simp
  then have "n \<le> 1" using assms by (subst (asm) mult_le_cancel_left_pos) auto
  with assms show False by simp
qed

lemma no_small_divisor_iff_prime:
  assumes "2 \<le> n"
  shows "(\<forall>d. 2 \<le> d \<and> d \<le> floor_sqrt n \<longrightarrow> \<not> d dvd n) \<longleftrightarrow> prime_number n"
proof
  assume nd: "\<forall>d. 2 \<le> d \<and> d \<le> floor_sqrt n \<longrightarrow> \<not> d dvd n"
  have n0: "0 \<le> n" using assms by simp
  from floor_sqrt_bounds [OF n0] have k: "0 \<le> floor_sqrt n"
     "n < (floor_sqrt n + 1) * (floor_sqrt n + 1)" by simp_all
  have "d = 1 \<or> d = n" if d: "0 < d" "d dvd n" for d
  proof (rule ccontr)
    assume "\<not> (d = 1 \<or> d = n)"
    then have d1: "d \<noteq> 1" "d \<noteq> n" by simp_all
    from d(2) obtain e where e: "n = d * e" by (auto simp: dvd_def)
    have "0 < d * e" using e assms by simp
    then have epos: "0 < e" using d(1) by (simp add: zero_less_mult_iff)
    have e1: "e \<noteq> 1" using e d1 by auto
    have d2: "2 \<le> d" using d(1) d1 by simp
    have e2: "2 \<le> e" using epos e1 by simp
    have "e dvd n" using e by simp
    with nd e2 have "\<not> e \<le> floor_sqrt n" by blast
    moreover from nd d2 d(2) have "\<not> d \<le> floor_sqrt n" by blast
    ultimately have "floor_sqrt n + 1 \<le> d" "floor_sqrt n + 1 \<le> e" by simp_all
    then have "(floor_sqrt n + 1) * (floor_sqrt n + 1) \<le> d * e" using k(1) by (intro mult_mono) auto
    with k(2) e show False by simp
  qed
  then show "prime_number n" using assms by (simp add: prime_number_def)
next
  assume p: "prime_number n"
  show "\<forall>d. 2 \<le> d \<and> d \<le> floor_sqrt n \<longrightarrow> \<not> d dvd n"
  proof (intro allI impI notI)
    fix d assume d: "2 \<le> d \<and> d \<le> floor_sqrt n" and dv: "d dvd n"
    from d have "0 < d" by simp
    with p dv have "d = 1 \<or> d = n" unfolding prime_number_def by blast
    moreover have "d < n" using d floor_sqrt_less [OF assms] by simp
    ultimately show False using d by simp
  qed
qed

lemma is_prime_correct:
  assumes "n < 2 ^ 106"
  shows "is_prime n = Inr (prime_number n)"
proof (cases "2 \<le> n")
  case True
  from is_prime_by_root [OF True assms] no_small_divisor_iff_prime [OF True] show ?thesis by simp
next
  case False
  then show ?thesis by (simp add: is_prime_def prime_number_def)
qed

lemma count_loop_filter:
  "\<forall>x \<in> set xs. is_prime x = Inr (P x) \<Longrightarrow>
   count_loop xs c = Inr (c + int (length (filter P xs)))"
  by (induction xs arbitrary: c) auto

lemma length_filter_range:
  "int (length (filter P (py_range 0 b))) = int (card {x. 0 \<le> x \<and> x < b \<and> P x})"
proof -
  have "length (filter P [0..b - 1]) = card ({x. P x} \<inter> set [0..b - 1])"
    by (intro distinct_length_filter) simp
  also have "{x. P x} \<inter> set [0..b - 1] = {x. 0 \<le> x \<and> x < b \<and> P x}" by auto
  finally show ?thesis by (simp add: py_range_def)
qed

lemma count_body_correct:
  assumes "bound \<le> 2 ^ 106"
  shows "count_prime_numbers_body bound = Inr (int (card {p. 0 \<le> p \<and> p < bound \<and> prime_number p}))"
proof -
  have "\<forall>x \<in> set (py_range 0 bound). is_prime x = Inr (prime_number x)"
    using assms by (auto simp: py_range_def intro!: is_prime_correct)
  from count_loop_filter [OF this, of 0] show ?thesis
    by (simp add: count_prime_numbers_body_def length_filter_range)
qed

lemma primes_below_pi:
  "int (card {p. 0 \<le> p \<and> p < bound \<and> prime_number p}) = prime_pi (bound - 1)"
proof -
  have "{p. 0 \<le> p \<and> p < bound \<and> prime_number p} = {p. p \<le> bound - 1 \<and> prime_number p}"
    by (auto simp: prime_number_def)
  then show ?thesis by (simp add: prime_pi_def)
qed

subsection \<open>The counting loop and the decorated routine\<close>

lemma is_prime_error:
  "is_prime n = Inl e \<Longrightarrow> e = OverflowError"
proof (cases "n < 2 ^ 1024 - 2 ^ 970")
  case True
  assume "is_prime n = Inl e"
  with is_prime_returns [OF True] show ?thesis by auto
next
  case False
  assume "is_prime n = Inl e"
  with is_prime_overflow [of n] False show ?thesis by simp
qed

lemma count_loop_raises:
  "\<exists>x \<in> set xs. is_prime x = Inl OverflowError \<Longrightarrow> count_loop xs c = Inl OverflowError"
proof (induction xs arbitrary: c)
  case Nil
  then show ?case by simp
next
  case (Cons x xs)
  show ?case
  proof (cases "is_prime x")
    case (Inl e)
    with is_prime_error [of x e] show ?thesis by simp
  next
    case (Inr p)
    with Cons.prems have "\<exists>y \<in> set xs. is_prime y = Inl OverflowError" by auto
    from Cons.IH [OF this] Inr show ?thesis by simp
  qed
qed

lemma count_body_raises:
  assumes "2 ^ 1024 - 2 ^ 970 < bound"
  shows "count_prime_numbers_body bound = Inl OverflowError"
proof -
  have "2 ^ 1024 - 2 ^ 970 \<in> set (py_range 0 bound)" using assms by (simp add: py_range_def)
  moreover have "is_prime (2 ^ 1024 - 2 ^ 970) = Inl OverflowError" by (rule is_prime_overflow) simp
  ultimately have "\<exists>x \<in> set (py_range 0 bound). is_prime x = Inl OverflowError" by blast
  from count_loop_raises [OF this] show ?thesis by (simp add: count_prime_numbers_body_def)
qed

lemma count_body_returns:
  assumes "bound \<le> 2 ^ 1024 - 2 ^ 970"
  shows "count_prime_numbers_body bound =
     Inr (int (card {x. 0 \<le> x \<and> x < bound \<and> is_prime x = Inr True}))"
proof -
  have "\<forall>x \<in> set (py_range 0 bound). is_prime x = Inr (is_prime x = Inr True)"
  proof
    fix x assume "x \<in> set (py_range 0 bound)"
    then have "x < 2 ^ 1024 - 2 ^ 970" using assms by (simp add: py_range_def)
    from is_prime_returns [OF this] show "is_prime x = Inr (is_prime x = Inr True)" by auto
  qed
  from count_loop_filter [OF this, of 0] show ?thesis
    by (simp add: count_prime_numbers_body_def length_filter_range)
qed

lemma decorated_result:
  "fst (call (count_prime_numbers pf) [bound] [] w) = count_prime_numbers_body bound"
  by (simp add: count_prime_numbers_def with_logging_def benchmark_def functools_wraps_def
      get_name_def count_prime_numbers_function_def perf_counter_def logging_info_def
      split: sum.splits prod.splits)

lemma count_body_ten: "count_prime_numbers_body 10 = Inr 4"
  by code_simp

lemma count_body_zero_one: "count_prime_numbers_body 0 = Inr 0" "count_prime_numbers_body 1 = Inr 0"
  by code_simp+

lemma finite_counted: "finite {x. 0 \<le> x \<and> x < b \<and> P x}" for b :: int
  by (rule finite_subset [of _ "{0..<b}"]) auto

lemma counted_step:
  fixes b :: int
  shows "int (card {x. 0 \<le> x \<and> x < b + 1 \<and> P x}) =
     int (card {x. 0 \<le> x \<and> x < b \<and> P x}) + (if 0 \<le> b \<and> P b then 1 else 0)"
proof (cases "0 \<le> b \<and> P b")
  case True
  then have "{x. 0 \<le> x \<and> x < b + 1 \<and> P x} = insert b {x. 0 \<le> x \<and> x < b \<and> P x}" by auto
  moreover have "b \<notin> {x. 0 \<le> x \<and> x < b \<and> P x}" by simp
  ultimately show ?thesis using True finite_counted [of b P] by simp
next
  case False
  then have "{x. 0 \<le> x \<and> x < b + 1 \<and> P x} = {x. 0 \<le> x \<and> x < b \<and> P x}"
    by (auto simp: less_le)
  with False show ?thesis by simp
qed

subsection \<open>The prime \<open>2 ^ 53 + 5\<close> and its square\<close>

text \<open>
  \<open>2 ^ 53 + 5\<close> is the least prime above \<open>2 ^ 53\<close>. Its primality is proved from a
  certificate: \<open>2\<close> has an order modulo every divisor \<open>r > 1\<close> of \<open>p\<close> that is a multiple of
  \<open>6529 * 43691\<close>, two primes that divide \<open>p - 1\<close>, and an order modulo \<open>r\<close> is less than
  \<open>r\<close>; so every such divisor exceeds the square root of \<open>p\<close>. The float square root of the
  square of this prime truncates to \<open>2 ^ 53 + 4\<close>, and the trial division never tries the
  prime itself.
\<close>

lemma mod_power_eq: "mod_power a e n = a ^ nat e mod n"
proof (induction a e n rule: mod_power.induct)
  case (1 a e n)
  show ?case
  proof (cases "e \<le> 0")
    case True
    then show ?thesis by (simp add: mod_power.simps)
  next
    case False
    define k where "k = nat (e div 2)"
    have IH: "mod_power a (e div 2) n = a ^ k mod n" using 1 False by (simp add: k_def)
    have sq: "(a ^ k mod n) * (a ^ k mod n) mod n = a ^ (k + k) mod n"
      by (simp add: power_add mod_mult_eq)
    show ?thesis
    proof (cases "even e")
      case True
      then have e: "nat e = k + k" using False by (auto simp: k_def elim!: evenE)
      have "mod_power a e n = (a ^ k mod n) * (a ^ k mod n) mod n"
        using False True by (subst mod_power.simps) (simp add: Let_def IH)
      then show ?thesis using sq e by simp
    next
      case odd: False
      then have e: "nat e = Suc (k + k)" using False by (auto simp: k_def elim!: oddE)
      have "mod_power a e n = ((a ^ k mod n) * (a ^ k mod n) mod n) * a mod n"
        using False odd by (subst mod_power.simps) (simp add: Let_def IH)
      also have "\<dots> = (a ^ (k + k) mod n) * a mod n" by (simp only: sq)
      also have "\<dots> = a ^ (k + k) * a mod n" by (rule mod_mult_left_eq)
      finally show ?thesis using e by (simp add: mult.commute)
    qed
  qed
qed

lemma power_mod_one:
  fixes a r :: int
  assumes "1 < r" "a ^ e mod r = 1"
  shows "a ^ (e * k + t) mod r = a ^ t mod r"
proof -
  have "(a ^ e) ^ k mod r = (a ^ e mod r) ^ k mod r" by (simp add: power_mod)
  also have "\<dots> = 1" using assms by simp
  finally have one: "(a ^ e) ^ k mod r = 1" .
  have "a ^ (e * k + t) mod r = ((a ^ e) ^ k * a ^ t) mod r" by (simp add: power_add power_mult)
  also have "\<dots> = ((a ^ e) ^ k mod r * a ^ t) mod r" by (simp add: mod_mult_left_eq)
  finally show ?thesis using one by simp
qed

lemma order_exists:
  fixes a r :: int and n :: nat
  assumes r: "1 < r" and n: "0 < n" and one: "a ^ n mod r = 1"
  shows "\<exists>d. 0 < d \<and> a ^ d mod r = 1 \<and> (\<forall>m. a ^ m mod r = 1 \<longrightarrow> d dvd m) \<and> int d < r"
proof -
  define P where "P e \<longleftrightarrow> 0 < e \<and> a ^ e mod r = 1" for e :: nat
  define d where "d = (LEAST e. P e)"
  have Pn: "P n" using n one by (simp add: P_def)
  have Pd: "P d" unfolding d_def using Pn by (rule LeastI)
  then have d0: "0 < d" and d1: "a ^ d mod r = 1" by (simp_all add: P_def)
  have least: "d \<le> e" if "P e" for e unfolding d_def using that by (rule Least_le)
  have dvd: "d dvd m" if m: "a ^ m mod r = 1" for m
  proof -
    define t where "t = m mod d"
    have "m = d * (m div d) + t" by (simp add: t_def)
    then have "a ^ m mod r = a ^ (d * (m div d) + t) mod r" by simp
    also have "\<dots> = a ^ t mod r" using r d1 by (rule power_mod_one)
    finally have "a ^ t mod r = 1" using m by simp
    moreover have "t < d" using d0 by (simp add: t_def)
    ultimately have "t = 0" using least [of t] by (cases "t = 0") (auto simp: P_def)
    then show ?thesis by (simp add: t_def dvd_eq_mod_eq_0)
  qed
  define f where "f i = a ^ i mod r" for i :: nat
  have nz: "f i \<noteq> 0" if "i < d" for i
  proof
    assume "f i = 0"
    then have "r dvd a ^ i" by (simp add: f_def dvd_eq_mod_eq_0)
    moreover have "a ^ d = a ^ i * a ^ (d - i)" using that by (simp add: power_add [symmetric])
    ultimately have "r dvd a ^ d" by simp
    then have "a ^ d mod r = 0" by (simp add: dvd_eq_mod_eq_0)
    with d1 show False by simp
  qed
  have inj: "inj_on f {0..<d}"
  proof (rule inj_onI)
    fix i j assume i: "i \<in> {0..<d}" and j: "j \<in> {0..<d}" and eq: "f i = f j"
    have aux: "x = y" if xy: "x \<le> y" "y < d" "f x = f y" for x y
    proof (rule ccontr)
      assume "x \<noteq> y"
      with xy have lt: "x < y" by simp
      define c where "c = a ^ (d - x)"
      have ac: "a ^ x * c = a ^ d" using xy lt by (simp add: c_def power_add [symmetric])
      have "a ^ (y - x) mod r = (a ^ (y - x) * (a ^ d mod r)) mod r" using d1 by simp
      also have "\<dots> = (a ^ (y - x) * a ^ d) mod r" by (simp add: mod_mult_right_eq)
      also have "a ^ (y - x) * a ^ d = a ^ y * c"
        using lt by (simp add: ac [symmetric] power_add [symmetric] mult.assoc [symmetric])
      also have "(a ^ y * c) mod r = ((a ^ y mod r) * c) mod r" by (simp add: mod_mult_left_eq)
      also have "\<dots> = ((a ^ x mod r) * c) mod r" using xy(3) by (simp add: f_def)
      also have "\<dots> = (a ^ x * c) mod r" by (simp add: mod_mult_left_eq)
      also have "\<dots> = 1" using ac d1 by simp
      finally have "P (y - x)" using lt by (simp add: P_def)
      from least [OF this] xy lt show False by simp
    qed
    show "i = j"
    proof (cases "i \<le> j")
      case True
      with aux [of i j] j eq show ?thesis by simp
    next
      case False
      with aux [of j i] i eq show ?thesis by simp
    qed
  qed
  have "f ` {0..<d} \<subseteq> {1..r - 1}"
  proof
    fix v assume "v \<in> f ` {0..<d}"
    then obtain i where i: "i < d" "v = f i" by auto
    have "0 \<le> f i" "f i < r" using r by (simp_all add: f_def)
    with nz [OF i(1)] i(2) show "v \<in> {1..r - 1}" by simp
  qed
  then have "card (f ` {0..<d}) \<le> card {1..r - 1}" by (intro card_mono) auto
  then have "d \<le> nat (r - 1)" using inj by (simp add: card_image)
  then have "int d < r" using r by simp
  with d0 d1 dvd show ?thesis by blast
qed

lemma prime_divides_order:
  fixes d q k :: nat
  assumes q: "prime_number (int q)" and dk: "d dvd q * k" and nk: "\<not> d dvd k"
  shows "q dvd d"
proof -
  define g where "g = gcd d q"
  have q1: "1 < q" using q by (simp add: prime_number_def)
  have "g dvd q" by (simp add: g_def)
  then have "int g dvd int q" by simp
  moreover have "0 < int g" using q1 by (simp add: g_def gcd_pos_nat)
  ultimately have "int g = 1 \<or> int g = int q" using q unfolding prime_number_def by blast
  then have "g = 1 \<or> g = q" by simp
  then show ?thesis
  proof
    assume "g = 1"
    then have "coprime d q" by (simp add: g_def coprime_iff_gcd_eq_1)
    with dk have "d dvd k" by (simp add: coprime_dvd_mult_right_iff)
    with nk show ?thesis by simp
  next
    assume "g = q"
    then have "q = gcd d q" by (simp add: g_def)
    then show ?thesis by (metis gcd_dvd1)
  qed
qed

lemma distinct_primes_coprime:
  fixes q1 q2 :: nat
  assumes "prime_number (int q1)" "prime_number (int q2)" "q1 \<noteq> q2"
  shows "coprime q1 q2"
proof -
  define g where "g = gcd q1 q2"
  have q: "1 < q1" using assms(1) by (simp add: prime_number_def)
  have g0: "0 < int g" using q by (simp add: g_def gcd_pos_nat)
  have "int g dvd int q1" "int g dvd int q2" by (simp_all add: g_def)
  with g0 assms(1,2) have "int g = 1 \<or> int g = int q1" "int g = 1 \<or> int g = int q2"
    unfolding prime_number_def by blast+
  with assms(3) have "g = 1" by auto
  then show ?thesis by (simp add: g_def coprime_iff_gcd_eq_1)
qed

lemma divisors_exceed_factored_part:
  fixes p a r :: int and q1 q2 k1 k2 :: nat
  assumes p: "1 < p"
    and n1: "nat (p - 1) = q1 * k1" and n2: "nat (p - 1) = q2 * k2"
    and pr: "prime_number (int q1)" "prime_number (int q2)" and ne: "q1 \<noteq> q2"
    and one: "a ^ nat (p - 1) mod p = 1"
    and g1: "gcd (a ^ k1 mod p - 1) p = 1" and g2: "gcd (a ^ k2 mod p - 1) p = 1"
    and r: "r dvd p" "1 < r"
  shows "int (q1 * q2) < r"
proof -
  define n where "n = nat (p - 1)"
  have n0: "0 < n" using p by (simp add: n_def)
  have "(a ^ n - 1) mod p = 0" using one p by (simp add: n_def mod_diff_left_eq [symmetric])
  then have "p dvd a ^ n - 1" by (simp add: dvd_eq_mod_eq_0)
  with r(1) have "r dvd a ^ n - 1" by (rule dvd_trans)
  then have "(a ^ n - 1) mod r = 0" by (simp add: dvd_eq_mod_eq_0)
  then have "a ^ n mod r = 1 mod r" by (metis diff_add_cancel mod_add_left_eq add_0)
  then have rn: "a ^ n mod r = 1" using r(2) by simp
  from order_exists [OF r(2) n0 rn] obtain d where
    d: "0 < d" "a ^ d mod r = 1" "\<And>m. a ^ m mod r = 1 \<Longrightarrow> d dvd m" "int d < r"
    by blast
  have dn: "d dvd n" using rn by (rule d(3))
  have not_dvd: "\<not> d dvd k" if g: "gcd (a ^ k mod p - 1) p = 1" for k
  proof
    assume "d dvd k"
    then obtain m where "k = d * m" by (auto simp: dvd_def)
    then have "a ^ k mod r = a ^ (d * m + 0) mod r" by simp
    also have "\<dots> = a ^ 0 mod r" using r(2) d(2) by (rule power_mod_one)
    finally have "a ^ k mod r = 1" using r(2) by simp
    then have "(a ^ k - 1) mod r = 0" using r(2) by (simp add: mod_diff_left_eq [symmetric])
    then have rk: "r dvd a ^ k - 1" by (simp add: dvd_eq_mod_eq_0)
    have eq: "a ^ k mod p - 1 = (a ^ k - 1) - p * (a ^ k div p)"
      by (simp add: minus_mult_div_eq_mod [symmetric])
    have "r dvd (a ^ k - 1) - p * (a ^ k div p)" using rk r(1) by (simp add: dvd_diff)
    then have "r dvd a ^ k mod p - 1" by (simp only: eq)
    with r(1) have "r dvd gcd (a ^ k mod p - 1) p" by simp
    with g have "r dvd 1" by simp
    with r(2) show False by simp
  qed
  have "q1 dvd d" using pr(1) dn [unfolded n_def n1] not_dvd [OF g1] by (rule prime_divides_order)
  moreover have "q2 dvd d" using pr(2) dn [unfolded n_def n2] not_dvd [OF g2] by (rule prime_divides_order)
  ultimately have "q1 * q2 dvd d"
    using distinct_primes_coprime [OF pr ne] by (simp add: divides_mult)
  then have "q1 * q2 \<le> d" using d(1) by (simp add: dvd_imp_le)
  then have "int (q1 * q2) \<le> int d" by (simp only: of_nat_le_iff)
  with d(4) show ?thesis by linarith
qed

lemma pocklington:
  fixes p a :: int and q1 q2 k1 k2 :: nat
  assumes p: "1 < p"
    and n1: "nat (p - 1) = q1 * k1" and n2: "nat (p - 1) = q2 * k2"
    and pr: "prime_number (int q1)" "prime_number (int q2)" and ne: "q1 \<noteq> q2"
    and one: "a ^ nat (p - 1) mod p = 1"
    and g1: "gcd (a ^ k1 mod p - 1) p = 1" and g2: "gcd (a ^ k2 mod p - 1) p = 1"
    and big: "p \<le> int (q1 * q2) * int (q1 * q2)"
  shows "prime_number p"
proof -
  define F where "F = int (q1 * q2)"
  have F0: "0 \<le> F" by (simp add: F_def)
  have above: "F < r" if "r dvd p" "1 < r" for r
    unfolding F_def using p n1 n2 pr ne one g1 g2 that by (rule divisors_exceed_factored_part)
  have "d = 1 \<or> d = p" if d: "0 < d" "d dvd p" for d
  proof (rule ccontr)
    assume "\<not> (d = 1 \<or> d = p)"
    then have d1: "d \<noteq> 1" "d \<noteq> p" by simp_all
    from d(2) obtain e where e: "p = d * e" by (auto simp: dvd_def)
    have "0 < d * e" using e p by simp
    then have epos: "0 < e" using d(1) by (simp add: zero_less_mult_iff)
    have "e \<noteq> 1" using e d1 by auto
    with epos have e1: "1 < e" by simp
    have d2: "1 < d" using d(1) d1 by simp
    have "e dvd p" using e by simp
    from above [OF this e1] above [OF d(2) d2] have "F + 1 \<le> e" "F + 1 \<le> d" by simp_all
    then have "(F + 1) * (F + 1) \<le> d * e" using F0 by (intro mult_mono) auto
    with e big have "(F + 1) * (F + 1) \<le> F * F" by (simp add: F_def)
    then show False using F0 by (simp add: algebra_simps)
  qed
  with p show ?thesis by (simp add: prime_number_def)
qed

lemma prime_6529: "prime_number 6529"
proof -
  have "is_prime 6529 = Inr True" by code_simp
  moreover have "is_prime 6529 = Inr (prime_number 6529)" by (rule is_prime_correct) simp
  ultimately show ?thesis by simp
qed

lemma prime_43691: "prime_number 43691"
proof -
  have "is_prime 43691 = Inr True" by code_simp
  moreover have "is_prime 43691 = Inr (prime_number 43691)" by (rule is_prime_correct) simp
  ultimately show ?thesis by simp
qed

lemma prime_2_53_5: "prime_number 9007199254740997"
proof (rule pocklington [where a = 2 and ?q1.0 = 6529 and ?q2.0 = 43691
      and ?k1.0 = "nat 1379567966724" and ?k2.0 = "nat 206156857356"])
  show "(1::int) < 9007199254740997" by simp
  show "nat (9007199254740997 - 1) = 6529 * nat 1379567966724" by simp
  show "nat (9007199254740997 - 1) = 43691 * nat 206156857356" by simp
  show "prime_number (int 6529)" using prime_6529 by simp
  show "prime_number (int 43691)" using prime_43691 by simp
  show "(6529::nat) \<noteq> 43691" by simp
  have "mod_power 2 (9007199254740997 - 1) 9007199254740997 = 1" by code_simp
  then show "(2::int) ^ nat (9007199254740997 - 1) mod 9007199254740997 = 1"
    by (simp only: mod_power_eq)
  have "gcd (mod_power 2 1379567966724 9007199254740997 - 1) 9007199254740997 = 1" by code_simp
  then show "gcd ((2::int) ^ nat 1379567966724 mod 9007199254740997 - 1) 9007199254740997 = 1"
    by (simp only: mod_power_eq)
  have "gcd (mod_power 2 206156857356 9007199254740997 - 1) 9007199254740997 = 1" by code_simp
  then show "gcd ((2::int) ^ nat 206156857356 mod 9007199254740997 - 1) 9007199254740997 = 1"
    by (simp only: mod_power_eq)
  show "(9007199254740997::int) \<le> int (6529 * 43691) * int (6529 * 43691)" by simp
qed

lemma float_root_of_prime_square:
  "float_of_int ((2 ^ 53 + 5) * (2 ^ 53 + 5)) = Inr \<lparr>mantissa = 2 ^ 52 + 5, exponent = 54\<rparr> \<and>
   sqrt_double \<lparr>mantissa = 2 ^ 52 + 5, exponent = 54\<rparr> = Inr \<lparr>mantissa = 2 ^ 52 + 2, exponent = 1\<rparr> \<and>
   int_of_double \<lparr>mantissa = 2 ^ 52 + 2, exponent = 1\<rparr> = 2 ^ 53 + 4 \<and>
   floor_sqrt ((2 ^ 53 + 5) * (2 ^ 53 + 5)) = 2 ^ 53 + 5"
  by code_simp

lemma prime_square_divisors:
  assumes p: "prime_number p" and d: "2 \<le> d" "d < p"
  shows "\<not> d dvd p * p"
proof
  assume dv: "d dvd p * p"
  define g where "g = gcd d p"
  have p1: "1 < p" using p by (simp add: prime_number_def)
  have "g dvd p" by (simp add: g_def)
  moreover have "0 < g" using p1 by (simp add: g_def)
  ultimately have "g = 1 \<or> g = p" using p unfolding prime_number_def by blast
  moreover have "g dvd d" by (simp add: g_def)
  then have "g \<le> d" using d(1) by (intro zdvd_imp_le) auto
  ultimately have "g = 1" using d(2) by auto
  then have "coprime d p" by (simp add: g_def coprime_iff_gcd_eq_1)
  with dv have "d dvd p" by (simp add: coprime_dvd_mult_left_iff)
  moreover have "0 < d" using d(1) by simp
  ultimately have "d = 1 \<or> d = p" using p unfolding prime_number_def by blast
  with d show False by simp
qed

lemma is_prime_of_prime_square:
  "is_prime ((2 ^ 53 + 5) * (2 ^ 53 + 5)) = Inr True"
proof -
  define p :: int where "p = 2 ^ 53 + 5"
  have pp: "prime_number p" using prime_2_53_5 by (simp add: p_def)
  have "\<not> d dvd p * p" if "2 \<le> d" "d \<le> p - 1" for d
    using pp that by (intro prime_square_divisors) auto
  then have "trial_division (p * p) (py_range 2 (p - 1 + 1))"
    by (auto simp: trial_division_iff py_range_def dvd_eq_mod_eq_0)
  moreover have "is_prime (p * p) = Inr (trial_division (p * p) (py_range 2 (p - 1 + 1)))"
    using float_root_of_prime_square by (simp add: is_prime_def p_def)
  ultimately show ?thesis by (simp add: p_def)
qed

lemma float_of_int_107:
  assumes "2 ^ 106 \<le> n" "n < 2 ^ 107"
  shows "\<exists>M. float_of_int n = Inr \<lparr>mantissa = M, exponent = 54\<rparr> \<and> 2 ^ 52 \<le> M \<and> M \<le> 2 ^ 53"
proof -
  define M where "M = round_half_even \<bar>n\<bar> 54"
  have npos: "0 < n" using assms(1) by simp
  then have abs: "\<bar>n\<bar> = n" by simp
  have "106 < bit_length n" using assms(1) by (rule bit_length_gt)
  moreover have "bit_length n \<le> 107" using assms(2) by (rule bit_length_le)
  ultimately have b: "bit_length \<bar>n\<bar> = 107" by (simp add: abs)
  have "2 ^ 52 * 2 ^ 54 \<le> n" using assms(1) by simp
  then have q52: "2 ^ 52 \<le> n div 2 ^ 54" by (intro div_ge_if) auto
  have "n < 2 ^ 53 * 2 ^ 54" using assms(2) by simp
  then have q53: "n div 2 ^ 54 < 2 ^ 53" by (intro div_less_if) auto
  have Mq: "n div 2 ^ 54 \<le> M" "M \<le> n div 2 ^ 54 + 1"
    using round_half_even_bounds [of n 54] npos by (simp_all add: M_def abs)
  have M: "2 ^ 52 \<le> M" "M \<le> 2 ^ 53" using Mq q52 q53 by simp_all
  have "M * 2 ^ 54 \<le> 2 ^ 53 * 2 ^ 54" using M(2) by (intro mult_right_mono) auto
  also have "\<dots> < (2::int) ^ 1024" by simp
  finally have nov: "\<not> 2 ^ 1024 \<le> M * 2 ^ (107 - 53)" by simp
  have "float_of_int n = Inr \<lparr>mantissa = sgn n * M, exponent = int (107 - 53)\<rparr>"
    using nov unfolding float_of_int_def Let_def b M_def by simp
  then show ?thesis using npos M by (intro exI [of _ M]) simp
qed

lemma sqrt_double_107:
  assumes "2 ^ 52 \<le> M" "M \<le> 2 ^ 53"
  shows "\<exists>y. sqrt_double \<lparr>mantissa = M, exponent = 54\<rparr> = Inr y \<and>
     2 ^ 53 \<le> int_of_double y \<and> int_of_double y \<le> 2 ^ 54"
proof -
  define N where "N = M * 4 ^ 26"
  define a where "a = floor_sqrt N"
  define r where "r = (if a < N - a * a then a + 1 else a)"
  have Mpos: "0 < M" using assms(1) by simp
  have "52 < bit_length M" using assms(1) by (rule bit_length_gt)
  moreover have "M < 2 ^ 54" using assms(2) by simp
  then have "bit_length M \<le> 54" by (rule bit_length_le)
  ultimately have j: "(106 - int (bit_length M)) div 2 = 26" by presburger
  have N0: "0 \<le> N" using Mpos by (simp add: N_def)
  from floor_sqrt_bounds [OF N0] have a: "0 \<le> a" "a * a \<le> N" by (simp_all add: a_def)
  have "(2 ^ 52 \<le> floor_sqrt N) = ((2::int) ^ 52 * 2 ^ 52 \<le> N)" by (rule le_floor_sqrt_iff [OF N0]) simp
  moreover have "(2::int) ^ 52 * 2 ^ 52 \<le> N" using assms(1) by (simp add: N_def)
  ultimately have a52: "2 ^ 52 \<le> a" by (simp add: a_def)
  have "N < 2 ^ 53 * 2 ^ 53" using assms(2) by (simp add: N_def)
  with a(2) have "a * a < 2 ^ 53 * 2 ^ 53" by simp
  then have a53: "a < 2 ^ 53" using sq_less_imp_less [of "2 ^ 53" a] by simp
  have r: "2 ^ 52 \<le> r" "r \<le> 2 ^ 53" using a52 a53 by (simp_all add: r_def)
  have "sqrt_double \<lparr>mantissa = M, exponent = 54\<rparr> = Inr \<lparr>mantissa = r, exponent = 1\<rparr>"
    using Mpos j by (simp add: sqrt_double_def Let_def r_def a_def N_def)
  moreover have "int_of_double \<lparr>mantissa = r, exponent = 1\<rparr> = r * 2" by (simp add: int_of_double_def)
  ultimately show ?thesis using r by simp
qed

lemma composite_below_prime_square:
  assumes "2 \<le> n" "n < (2 ^ 53 + 5) * (2 ^ 53 + 5)" "\<not> prime_number n"
  shows "\<exists>d. 2 \<le> d \<and> d \<le> 2 ^ 53 \<and> d dvd n"
proof -
  from no_small_divisor_iff_prime [OF assms(1)] assms(3) obtain d where
    d: "2 \<le> d" "d \<le> floor_sqrt n" "d dvd n" by blast
  have n0: "0 \<le> n" using assms(1) by simp
  have "(2 ^ 53 + 5 \<le> floor_sqrt n) = (((2::int) ^ 53 + 5) * (2 ^ 53 + 5) \<le> n)"
    by (rule le_floor_sqrt_iff [OF n0]) simp
  with assms(2) have "floor_sqrt n \<le> 2 ^ 53 + 4" by simp
  with d(2) have "d \<le> 2 ^ 53 + 4" by simp
  then have "d \<le> 2 ^ 53 \<or> d = 2 ^ 53 + 1 \<or> d = 2 ^ 53 + 2 \<or> d = 2 ^ 53 + 3 \<or> d = 2 ^ 53 + 4"
    by presburger
  then consider "d \<le> 2 ^ 53" | "3 dvd d" | "2 dvd d" | "5 dvd d" by (elim disjE) simp_all
  then show ?thesis
  proof cases
    case 1
    with d show ?thesis by blast
  next
    case 2
    then have "3 dvd n" using d(3) by (rule dvd_trans)
    then show ?thesis by (intro exI [of _ 3]) simp
  next
    case 3
    then have "2 dvd n" using d(3) by (rule dvd_trans)
    then show ?thesis by (intro exI [of _ 2]) simp
  next
    case 4
    then have "5 dvd n" using d(3) by (rule dvd_trans)
    then show ?thesis by (intro exI [of _ 5]) simp
  qed
qed

lemma is_prime_correct_107:
  assumes "2 ^ 106 \<le> n" "n < (2 ^ 53 + 5) * (2 ^ 53 + 5)"
  shows "is_prime n = Inr (prime_number n)"
proof -
  have n2: "2 \<le> n" using assms(1) by simp
  have "n < 2 ^ 107" using assms(2) by simp
  from float_of_int_107 [OF assms(1) this] obtain M where
    fl: "float_of_int n = Inr \<lparr>mantissa = M, exponent = 54\<rparr>" and M: "2 ^ 52 \<le> M" "M \<le> 2 ^ 53"
    by blast
  from sqrt_double_107 [OF M] obtain y where
    sq: "sqrt_double \<lparr>mantissa = M, exponent = 54\<rparr> = Inr y"
    and y: "2 ^ 53 \<le> int_of_double y" "int_of_double y \<le> 2 ^ 54" by blast
  define i where "i = int_of_double y"
  have i_n: "i < n" using y(2) assms(1) by (simp add: i_def)
  have "is_prime n = Inr (trial_division n (py_range 2 (i + 1)))"
    using n2 by (simp add: is_prime_def fl sq i_def)
  also have "trial_division n (py_range 2 (i + 1)) \<longleftrightarrow> (\<forall>d. 2 \<le> d \<and> d \<le> i \<longrightarrow> \<not> d dvd n)"
    by (auto simp: trial_division_iff py_range_def dvd_eq_mod_eq_0)
  also have "\<dots> \<longleftrightarrow> prime_number n"
  proof
    assume none: "\<forall>d. 2 \<le> d \<and> d \<le> i \<longrightarrow> \<not> d dvd n"
    show "prime_number n"
    proof (rule ccontr)
      assume "\<not> prime_number n"
      from composite_below_prime_square [OF n2 assms(2) this] obtain d where
        "2 \<le> d" "d \<le> 2 ^ 53" "d dvd n" by blast
      with none y(1) show False by (auto simp: i_def)
    qed
  next
    assume p: "prime_number n"
    show "\<forall>d. 2 \<le> d \<and> d \<le> i \<longrightarrow> \<not> d dvd n"
    proof (intro allI impI notI)
      fix d assume d: "2 \<le> d \<and> d \<le> i" and dv: "d dvd n"
      from d have "0 < d" by simp
      with p dv have "d = 1 \<or> d = n" unfolding prime_number_def by blast
      with d i_n show False by simp
    qed
  qed
  finally show ?thesis .
qed

lemma is_prime_correct_below_prime_square:
  assumes "n < (2 ^ 53 + 5) * (2 ^ 53 + 5)"
  shows "is_prime n = Inr (prime_number n)"
proof (cases "n < 2 ^ 106")
  case True
  then show ?thesis by (rule is_prime_correct)
next
  case False
  then have "2 ^ 106 \<le> n" by simp
  then show ?thesis using assms by (rule is_prime_correct_107)
qed

lemma prime_square_not_prime: "\<not> prime_number ((2 ^ 53 + 5) * (2 ^ 53 + 5))"
proof
  assume "prime_number ((2 ^ 53 + 5) * (2 ^ 53 + 5))"
  moreover have "(2 ^ 53 + 5 :: int) dvd (2 ^ 53 + 5) * (2 ^ 53 + 5)" by (rule dvd_triv_left)
  moreover have "(0::int) < 2 ^ 53 + 5" by simp
  ultimately have "(2 ^ 53 + 5 :: int) = 1 \<or> (2 ^ 53 + 5 :: int) = (2 ^ 53 + 5) * (2 ^ 53 + 5)"
    unfolding prime_number_def by blast
  then show False by simp
qed

lemma count_body_at_prime_square:
  "count_prime_numbers_body ((2 ^ 53 + 5) * (2 ^ 53 + 5) + 1) =
     Inr (int (card {q. 0 \<le> q \<and> q < (2 ^ 53 + 5) * (2 ^ 53 + 5) + 1 \<and> prime_number q}) + 1)"
proof -
  define n :: int where "n = (2 ^ 53 + 5) * (2 ^ 53 + 5)"
  have n0: "0 \<le> n" by (simp add: n_def)
  have acc: "is_prime n = Inr True" unfolding n_def by (rule is_prime_of_prime_square)
  have npr: "\<not> prime_number n" unfolding n_def by (rule prime_square_not_prime)
  have below: "(is_prime x = Inr True) = prime_number x" if "x < n" for x
    using is_prime_correct_below_prime_square [of x] that by (simp add: n_def)
  have "n + 1 \<le> 2 ^ 1024 - 2 ^ 970" by (simp add: n_def)
  then have "count_prime_numbers_body (n + 1) =
      Inr (int (card {x. 0 \<le> x \<and> x < n + 1 \<and> is_prime x = Inr True}))"
    by (rule count_body_returns)
  also have "int (card {x. 0 \<le> x \<and> x < n + 1 \<and> is_prime x = Inr True}) =
      int (card {x. 0 \<le> x \<and> x < n \<and> is_prime x = Inr True}) +
        (if 0 \<le> n \<and> is_prime n = Inr True then 1 else 0)"
    by (rule counted_step)
  also have "{x. 0 \<le> x \<and> x < n \<and> is_prime x = Inr True} = {x. 0 \<le> x \<and> x < n \<and> prime_number x}"
    using below by auto
  also have "int (card {x. 0 \<le> x \<and> x < n \<and> prime_number x}) =
      int (card {x. 0 \<le> x \<and> x < n + 1 \<and> prime_number x})"
    using counted_step [of n prime_number] npr by simp
  finally show ?thesis using n0 acc by (simp add: n_def)
qed

subsection \<open>What a call of a wrapper does\<close>

lemma with_logging_call:
  assumes "name_attr f = Some n"
  shows "call (with_logging f) args kwargs w =
     (case call f args kwargs (logging_info (''Calling '' @ n) w) of
        (Inl e, w1) \<Rightarrow> (Inl e, w1)
      | (Inr v, w1) \<Rightarrow> (Inr v, logging_info (''Finished '' @ n) w1))"
  using assms by (simp add: with_logging_def functools_wraps_def get_name_def
      split: prod.splits sum.splits)

lemma with_logging_nameless:
  assumes "name_attr f = None"
  shows "call (with_logging f) args kwargs w = (Inl AttributeError, w)"
  using assms by (simp add: with_logging_def functools_wraps_def get_name_def)

lemma benchmark_call:
  "call (benchmark pf f) args kwargs w =
     (case call f args kwargs (snd (perf_counter pf w)) of
        (Inl e, w1) \<Rightarrow> (Inl e, w1)
      | (Inr v, w1) \<Rightarrow>
          (case name_attr f of
             None \<Rightarrow> (Inl AttributeError, snd (perf_counter pf w1))
           | Some n \<Rightarrow>
               (Inr v,
                logging_info
                  (''Execution of '' @ n @ '' took '' @
                   format_2f pf (elapsed pf (fst (perf_counter pf w1)) (fst (perf_counter pf w))) @
                   '' seconds.'')
                  (snd (perf_counter pf w1)))))"
  by (simp add: benchmark_def functools_wraps_def get_name_def Let_def
      split: prod.splits sum.splits option.splits)

lemma wrapper_names:
  "name_attr (with_logging f) = (case name_attr f of None \<Rightarrow> Some ''wrapper'' | Some n \<Rightarrow> Some n)"
  "name_attr (benchmark pf f) = (case name_attr f of None \<Rightarrow> Some ''wrapper'' | Some n \<Rightarrow> Some n)"
  by (simp_all add: with_logging_def benchmark_def functools_wraps_def split: option.splits)

lemma recording_call:
  "call (recording f) args kwargs w =
     (fst (call f args kwargs (unrecorded w)),
      \<lparr>log = log (snd (call f args kwargs (unrecorded w))),
       ticks = ticks (snd (call f args kwargs (unrecorded w))),
       heap = (heap (snd (call f args kwargs (unrecorded w))), recorded_calls w @ [(args, kwargs)])\<rparr>)"
  by (simp add: recording_def split: prod.splits)

lemma recording_name: "name_attr (recording f) = name_attr f"
  by (simp add: recording_def)

lemma unrecorded_simps [simp]:
  "log (unrecorded w) = log w" "ticks (unrecorded w) = ticks w" "heap (unrecorded w) = fst (heap w)"
  by (simp_all add: unrecorded_def)

lemma recorded_calls_simps [simp]:
  "recorded_calls (logging_info m w) = recorded_calls w"
  "recorded_calls (snd (perf_counter pf w)) = recorded_calls w"
  by (simp_all add: recorded_calls_def logging_info_def perf_counter_def)

lemma with_logging_result:
  assumes "name_attr f = Some n"
  shows "fst (call (with_logging f) args kwargs w) =
     fst (call f args kwargs (logging_info (''Calling '' @ n) w))"
  by (auto simp: with_logging_call [OF assms] split: prod.splits sum.splits)

lemma benchmark_result:
  assumes "name_attr f = Some n"
  shows "fst (call (benchmark pf f) args kwargs w) = fst (call f args kwargs (snd (perf_counter pf w)))"
  by (auto simp: benchmark_call assms split: prod.splits sum.splits)

section \<open>The claims\<close>

subsection \<open>C3: integers below 2 are not prime\<close>

text \<open>
  C3. For every integer \<open>n < 2\<close> (every negative integer, 0 and 1), \<open>is_prime(n)\<close> returns
  false.
\<close>

theorem is_prime_below_two:
  "n < 2 \<Longrightarrow> is_prime n = Inr False"
  by (simp add: is_prime_def)

theorem is_prime_below_two_witness:
  "is_prime (- 7) = Inr False \<and> is_prime 0 = Inr False \<and> is_prime 1 = Inr False"
  using is_prime_below_two [of "- 7"] is_prime_below_two [of 0] is_prime_below_two [of 1]
  by simp

subsection \<open>C9: where the primality test returns\<close>

text \<open>
  C9, as the code has it. \<open>is_prime\<close> returns a boolean, without raising, for every integer
  below \<open>2 ^ 1024 - 2 ^ 970\<close>, every negative integer included: the guard \<open>n < 2\<close> returns
  before \<open>sqrt\<close> is applied, so \<open>sqrt\<close> never sees a negative number and \<open>ValueError\<close> is
  never raised. From \<open>2 ^ 1024 - 2 ^ 970\<close> on, the conversion of the integer to a float
  inside \<open>sqrt\<close> raises \<open>OverflowError\<close>.
\<close>

theorem is_prime_total_below_overflow:
  "(n < 2 ^ 1024 - 2 ^ 970 \<longrightarrow> (\<exists>p. is_prime n = Inr p)) \<and>
   (2 ^ 1024 - 2 ^ 970 \<le> n \<longrightarrow> is_prime n = Inl OverflowError) \<and>
   is_prime n \<noteq> Inl ValueError"
proof (intro conjI impI)
  show "\<exists>p. is_prime n = Inr p" if "n < 2 ^ 1024 - 2 ^ 970" using that by (rule is_prime_returns)
  show "is_prime n = Inl OverflowError" if "2 ^ 1024 - 2 ^ 970 \<le> n" using that by (rule is_prime_overflow)
  show "is_prime n \<noteq> Inl ValueError" using is_prime_error [of n ValueError] by auto
qed

theorem is_prime_total_below_overflow_witness:
  "(\<exists>p. is_prime (- 3) = Inr p) \<and> (\<exists>p. is_prime (2 ^ 1024 - 2 ^ 970 - 1) = Inr p) \<and>
   is_prime (2 ^ 1024 + 1) = Inl OverflowError \<and> is_prime (- 3) \<noteq> Inl ValueError"
  using is_prime_total_below_overflow [of "- 3"]
    is_prime_total_below_overflow [of "2 ^ 1024 - 2 ^ 970 - 1"]
    is_prime_total_below_overflow [of "2 ^ 1024 + 1"]
  by simp

text \<open>
  C9, as it is stated (total on all integers), fails at the first integer that rounds to
  \<open>2 ^ 1024\<close>: there \<open>is_prime\<close> raises.
\<close>

theorem is_prime_raises_at_threshold:
  "is_prime (2 ^ 1024 - 2 ^ 970) = Inl OverflowError"
  by (rule is_prime_overflow) simp

subsection \<open>C2: trial division up to the square root\<close>

text \<open>
  C2. For every integer \<open>n \<ge> 2\<close>, \<open>is_prime(n)\<close> returns true if and only if \<open>n\<close> has no
  integer divisor \<open>d\<close> with \<open>2 \<le> d \<le> sqrt(n)\<close>. The code breaks this at the square of the
  prime \<open>2 ^ 53 + 5\<close>: that number has the divisor \<open>2 ^ 53 + 5\<close>, which is at least 2 and whose
  square is not above the number, and \<open>is_prime\<close> returns true. The float square root of the
  number truncates to \<open>2 ^ 53 + 4\<close>, so \<open>range(2, int(sqrt(number)) + 1)\<close> ends one short of
  the integer square root that the \<open>+ 1\<close> is there to include.
\<close>

theorem is_prime_accepts_composite_square:
  "is_prime ((2 ^ 53 + 5) * (2 ^ 53 + 5)) = Inr True \<and>
   (2::int) \<le> 2 ^ 53 + 5 \<and>
   (2 ^ 53 + 5 :: int) * (2 ^ 53 + 5) \<le> (2 ^ 53 + 5) * (2 ^ 53 + 5) \<and>
   (2 ^ 53 + 5 :: int) dvd (2 ^ 53 + 5) * (2 ^ 53 + 5)"
  using is_prime_of_prime_square by simp

text \<open>
  That number is the least at which the claim fails: for every smaller \<open>n \<ge> 2\<close> the verdict
  of \<open>is_prime\<close> is the one the claim states. From \<open>2 ^ 1024 - 2 ^ 970\<close> on \<open>is_prime\<close>
  returns no verdict: it raises, as at \<open>2 ^ 1024\<close>.
\<close>

lemma is_prime_trial_division:
  assumes "2 \<le> n" "n < (2 ^ 53 + 5) * (2 ^ 53 + 5)"
  shows "is_prime n = Inr (\<forall>d. 2 \<le> d \<and> d * d \<le> n \<longrightarrow> \<not> d dvd n)"
proof -
  have "(2 \<le> d \<and> d \<le> floor_sqrt n) = (2 \<le> d \<and> d * d \<le> n)" for d
    using le_floor_sqrt_iff [of n d] assms(1) by auto
  with is_prime_correct_below_prime_square [OF assms(2)] no_small_divisor_iff_prime [OF assms(1)]
  show ?thesis by simp
qed

lemma is_prime_raises_at_2_1024:
  "is_prime (2 ^ 1024) = Inl OverflowError"
  by (rule is_prime_overflow) simp

subsection \<open>C1: the count is the number of primes below the bound\<close>

text \<open>
  C1. For every integer bound, \<open>count_prime_numbers(bound)\<close> returns the number of primes in
  the half-open range \<open>[0, bound)\<close>, which is 0 for a bound that is negative or zero. The code
  breaks this at the bound
  \<open>(2 ^ 53 + 5) * (2 ^ 53 + 5) + 1\<close>: the call returns one more than the number of primes in
  the range, because the loop counts the composite \<open>(2 ^ 53 + 5) * (2 ^ 53 + 5)\<close>, which
  \<open>is_prime\<close> takes for a prime.
\<close>

theorem count_prime_numbers_counts_composite_square:
  "fst (call (count_prime_numbers pf) [(2 ^ 53 + 5) * (2 ^ 53 + 5) + 1] [] w) =
     Inr (int (card {q. 0 \<le> q \<and> q < (2 ^ 53 + 5) * (2 ^ 53 + 5) + 1 \<and> prime_number q}) + 1)"
  unfolding decorated_result by (rule count_body_at_prime_square)

theorem count_prime_numbers_counts_composite_square_witness:
  "fst (call (count_prime_numbers demo_platform) [(2 ^ 53 + 5) * (2 ^ 53 + 5) + 1] [] (fresh_world ())) =
     Inr (int (card {q. 0 \<le> q \<and> q < (2 ^ 53 + 5) * (2 ^ 53 + 5) + 1 \<and> prime_number q}) + 1)"
  by (rule count_prime_numbers_counts_composite_square)

text \<open>
  That bound is the least at which the claim fails: up to \<open>(2 ^ 53 + 5) * (2 ^ 53 + 5)\<close> the
  call returns the number of primes in the range, and 0 for a bound that is negative or
  zero. Above \<open>2 ^ 1024 - 2 ^ 970\<close> the call returns no count: it raises, as at \<open>2 ^ 1024\<close>.
\<close>

lemma count_prime_numbers_counts_primes:
  assumes "bound \<le> (2 ^ 53 + 5) * (2 ^ 53 + 5)"
  shows "fst (call (count_prime_numbers pf) [bound] [] w) =
           Inr (int (card {p. 0 \<le> p \<and> p < bound \<and> prime_number p})) \<and>
         (bound \<le> 0 \<longrightarrow> fst (call (count_prime_numbers pf) [bound] [] w) = Inr 0)"
proof -
  have "\<forall>x \<in> set (py_range 0 bound). is_prime x = Inr (prime_number x)"
    using assms by (auto simp: py_range_def intro!: is_prime_correct_below_prime_square)
  from count_loop_filter [OF this, of 0]
  have r: "fst (call (count_prime_numbers pf) [bound] [] w) =
      Inr (int (card {p. 0 \<le> p \<and> p < bound \<and> prime_number p}))"
    by (simp add: decorated_result count_prime_numbers_body_def length_filter_range)
  have "bound \<le> 0 \<Longrightarrow> {p. 0 \<le> p \<and> p < bound \<and> prime_number p} = {}" by auto
  then have "bound \<le> 0 \<Longrightarrow> card {p. 0 \<le> p \<and> p < bound \<and> prime_number p} = 0"
    by (simp only: card.empty)
  with r show ?thesis by simp
qed

lemma count_prime_numbers_raises_at_2_1024:
  "fst (call (count_prime_numbers demo_platform) [2 ^ 1024] [] (fresh_world ())) = Inl OverflowError"
  unfolding decorated_result by (rule count_body_raises) simp

subsection \<open>C4: concrete values of the count\<close>

text \<open>
  C4. \<open>count_prime_numbers(0) = 0\<close>, \<open>count_prime_numbers(1) = 0\<close>,
  \<open>count_prime_numbers(10) = 4\<close>, and \<open>count_prime_numbers(50000)\<close> is the value
  \<open>\<pi>(49999)\<close> of the prime-counting function: the number of primes up to 49999.
\<close>

theorem count_prime_numbers_values:
  "fst (call (count_prime_numbers pf) [0] [] w) = Inr 0 \<and>
   fst (call (count_prime_numbers pf) [1] [] w) = Inr 0 \<and>
   fst (call (count_prime_numbers pf) [10] [] w) = Inr 4 \<and>
   fst (call (count_prime_numbers pf) [50000] [] w) = Inr (prime_pi 49999)"
proof -
  have "count_prime_numbers_body 50000 = Inr (prime_pi (50000 - 1))"
    unfolding primes_below_pi [symmetric] by (rule count_body_correct) simp
  then show ?thesis by (simp add: decorated_result count_body_ten count_body_zero_one)
qed

theorem count_prime_numbers_values_witness:
  "fst (call (count_prime_numbers demo_platform) [0] [] (fresh_world ())) = Inr 0 \<and>
   fst (call (count_prime_numbers demo_platform) [1] [] (fresh_world ())) = Inr 0 \<and>
   fst (call (count_prime_numbers demo_platform) [10] [] (fresh_world ())) = Inr 4 \<and>
   fst (call (count_prime_numbers demo_platform) [50000] [] (fresh_world ())) = Inr (prime_pi 49999)"
  using count_prime_numbers_values [of demo_platform "fresh_world ()"] by simp

subsection \<open>C10: the count is monotone and steps with the primality test\<close>

text \<open>
  C10, as the code has it. For every pair of integers \<open>a \<le> b\<close> with
  \<open>b \<le> 2 ^ 1024 - 2 ^ 970\<close>, both calls return and
  \<open>count_prime_numbers(a) \<le> count_prime_numbers(b)\<close>; and for \<open>b < 2 ^ 1024 - 2 ^ 970\<close>,
  \<open>count_prime_numbers(b + 1) - count_prime_numbers(b)\<close> is 1 if \<open>is_prime(b)\<close> and 0
  otherwise.
\<close>

theorem count_prime_numbers_monotone:
  assumes "a \<le> b" "b \<le> 2 ^ 1024 - 2 ^ 970"
  shows "\<exists>ca cb.
     fst (call (count_prime_numbers pf) [a] [] w) = Inr ca \<and>
     fst (call (count_prime_numbers pf) [b] [] w) = Inr cb \<and> ca \<le> cb \<and>
     (b < 2 ^ 1024 - 2 ^ 970 \<longrightarrow>
        (\<exists>p. is_prime b = Inr p \<and>
           fst (call (count_prime_numbers pf) [b + 1] [] w) = Inr (cb + (if p then 1 else 0))))"
proof -
  define C where "C bound = {x. 0 \<le> x \<and> x < bound \<and> is_prime x = Inr True}" for bound :: int
  have ra: "count_prime_numbers_body a = Inr (int (card (C a)))"
    unfolding C_def using assms by (intro count_body_returns) simp
  have rb: "count_prime_numbers_body b = Inr (int (card (C b)))"
    unfolding C_def using assms by (intro count_body_returns) simp
  have "C a \<subseteq> C b" using assms(1) by (auto simp: C_def)
  moreover have "finite (C b)" unfolding C_def by (rule finite_counted)
  ultimately have mono: "int (card (C a)) \<le> int (card (C b))" by (simp add: card_mono)
  have step: "\<exists>p. is_prime b = Inr p \<and>
      count_prime_numbers_body (b + 1) = Inr (int (card (C b)) + (if p then 1 else 0))"
    if lt: "b < 2 ^ 1024 - 2 ^ 970"
  proof -
    from is_prime_returns [OF lt] obtain p where p: "is_prime b = Inr p" ..
    have r1: "count_prime_numbers_body (b + 1) = Inr (int (card (C (b + 1))))"
      unfolding C_def using lt by (intro count_body_returns) simp
    have neg: "\<not> p" if "b < 0"
      using that p by (simp add: is_prime_def)
    have "int (card (C (b + 1))) = int (card (C b)) + (if 0 \<le> b \<and> is_prime b = Inr True then 1 else 0)"
      unfolding C_def by (rule counted_step)
    also have "(if 0 \<le> b \<and> is_prime b = Inr True then 1 else 0) = (if p then 1 else (0::int))"
      using p neg by auto
    finally show ?thesis using p r1 by simp
  qed
  show ?thesis using ra rb mono step by (simp add: decorated_result)
qed

theorem count_prime_numbers_monotone_witness:
  "\<exists>ca cb.
     fst (call (count_prime_numbers demo_platform) [5] [] (fresh_world ())) = Inr ca \<and>
     fst (call (count_prime_numbers demo_platform) [7] [] (fresh_world ())) = Inr cb \<and> ca \<le> cb \<and>
     (\<exists>p. is_prime 7 = Inr p \<and>
        fst (call (count_prime_numbers demo_platform) [7 + 1] [] (fresh_world ())) =
          Inr (cb + (if p then 1 else 0)))"
  using count_prime_numbers_monotone [of 5 7 demo_platform "fresh_world ()"] by simp

text \<open>
  C10, as it is stated (every pair of integers), fails at \<open>a = 0\<close> and
  \<open>b = 2 ^ 1024 - 2 ^ 970 + 1\<close>: the first call returns 0, the second raises and returns no
  count to compare with; likewise \<open>count_prime_numbers(b + 1)\<close> for \<open>b = 2 ^ 1024 - 2 ^ 970\<close>.
\<close>

theorem count_prime_numbers_step_raises:
  "fst (call (count_prime_numbers demo_platform) [0] [] (fresh_world ())) = Inr 0 \<and>
   fst (call (count_prime_numbers demo_platform) [2 ^ 1024 - 2 ^ 970 + 1] [] (fresh_world ())) =
     Inl OverflowError"
proof -
  have "count_prime_numbers_body (2 ^ 1024 - 2 ^ 970 + 1) = Inl OverflowError"
    by (rule count_body_raises) simp
  then show ?thesis by (simp add: decorated_result count_body_zero_one)
qed

subsection \<open>C5: the wrappers pass arguments and result through\<close>

text \<open>
  C5, as the code has it. For every callable \<open>f\<close> that has a \<open>__name__\<close> attribute and every
  argument list, calling \<open>with_logging(f)\<close> with those arguments invokes \<open>f\<close> exactly once, with
  exactly those positional and keyword arguments (the probe records one call, with them),
  and returns the result of that invocation unmodified; \<open>benchmark(f)\<close> does the same. For an
  \<open>f\<close> whose result does not depend on the log or the timer, both wrapped callables return
  what \<open>f\<close> itself returns on the same arguments.
\<close>

theorem wrappers_pass_through:
  assumes "name_attr f = Some n"
  shows
    "fst (call (with_logging (recording f)) args kwargs w) =
       fst (call f args kwargs (unrecorded (logging_info (''Calling '' @ n) w))) \<and>
     recorded_calls (snd (call (with_logging (recording f)) args kwargs w)) =
       recorded_calls w @ [(args, kwargs)] \<and>
     fst (call (benchmark pf (recording f)) args kwargs w) =
       fst (call f args kwargs (unrecorded (snd (perf_counter pf w)))) \<and>
     recorded_calls (snd (call (benchmark pf (recording f)) args kwargs w)) =
       recorded_calls w @ [(args, kwargs)] \<and>
     (ignores_instrumentation f \<longrightarrow>
        fst (call (with_logging f) args kwargs v) = fst (call f args kwargs v) \<and>
        fst (call (benchmark pf f) args kwargs v) = fst (call f args kwargs v))"
proof (intro conjI impI)
  have rn: "name_attr (recording f) = Some n" using assms by (simp add: recording_name)
  show "fst (call (with_logging (recording f)) args kwargs w) =
      fst (call f args kwargs (unrecorded (logging_info (''Calling '' @ n) w)))"
    by (simp add: with_logging_result [OF rn] recording_call)
  show "recorded_calls (snd (call (with_logging (recording f)) args kwargs w)) =
      recorded_calls w @ [(args, kwargs)]"
    by (simp add: with_logging_call [OF rn] recording_call split: prod.splits sum.splits)
      (simp add: recorded_calls_def logging_info_def)
  show "fst (call (benchmark pf (recording f)) args kwargs w) =
      fst (call f args kwargs (unrecorded (snd (perf_counter pf w))))"
    by (simp add: benchmark_result [OF rn] recording_call)
  show "recorded_calls (snd (call (benchmark pf (recording f)) args kwargs w)) =
      recorded_calls w @ [(args, kwargs)]"
    by (simp add: benchmark_call rn recording_call split: prod.splits sum.splits)
      (simp add: recorded_calls_def logging_info_def perf_counter_def)
next
  assume ign: "ignores_instrumentation f"
  have same: "fst (call f args kwargs v1) = fst (call f args kwargs v)" if "heap v1 = heap v" for v1
    using ign that unfolding ignores_instrumentation_def by blast
  have "fst (call f args kwargs (logging_info (''Calling '' @ n) v)) = fst (call f args kwargs v)"
    by (rule same) (simp add: logging_info_def)
  then show "fst (call (with_logging f) args kwargs v) = fst (call f args kwargs v)"
    by (simp add: with_logging_result [OF assms])
  have "fst (call f args kwargs (snd (perf_counter pf v))) = fst (call f args kwargs v)"
    by (rule same) (simp add: perf_counter_def)
  then show "fst (call (benchmark pf f) args kwargs v) = fst (call f args kwargs v)"
    by (simp add: benchmark_result [OF assms])
qed

theorem wrappers_pass_through_witness:
  "fst (call (with_logging (recording add_function)) [1, 2] [] (fresh_world ((), []))) = Inr 3 \<and>
   recorded_calls (snd (call (with_logging (recording add_function)) [1, 2] [] (fresh_world ((), [])))) =
     [([1, 2], [])] \<and>
   fst (call (benchmark demo_platform (recording add_function)) [1, 2] [] (fresh_world ((), []))) = Inr 3 \<and>
   recorded_calls
     (snd (call (benchmark demo_platform (recording add_function)) [1, 2] [] (fresh_world ((), [])))) =
     [([1, 2], [])] \<and>
   fst (call (with_logging add_function) [1, 2] [] (fresh_world ())) = Inr 3 \<and>
   fst (call (benchmark demo_platform add_function) [1, 2] [] (fresh_world ())) = Inr 3"
proof -
  have n: "name_attr (add_function :: (int, int, unit) callable) = Some ''add''"
    by (simp add: add_function_def)
  have ign: "ignores_instrumentation (add_function :: (int, int, unit) callable)"
    by (simp add: ignores_instrumentation_def add_function_def)
  have r: "recorded_calls (fresh_world ((), [])) = ([] :: (int list \<times> (string \<times> int) list) list)"
    by (simp add: recorded_calls_def fresh_world_def)
  have c: "fst (call add_function [1, 2] [] u) = Inr 3" for u :: "unit world"
    by (simp add: add_function_def)
  from wrappers_pass_through [OF n, of "[1, 2]" "[]" "fresh_world ((), [])" demo_platform "fresh_world ()"]
  show ?thesis using ign r c by simp
qed

text \<open>
  C5, as it is stated (every callable), fails for a callable without \<open>__name__\<close>, such as
  a \<open>functools.partial\<close> object: \<open>f(1, 2)\<close> returns 3, but \<open>with_logging(f)(1, 2)\<close> raises
  \<open>AttributeError\<close> when it formats the first log message, before it has invoked \<open>f\<close> (nothing
  is recorded, nothing is logged), and \<open>benchmark(f)(1, 2)\<close> raises \<open>AttributeError\<close> after
  \<open>f\<close> has returned, in place of returning the result.
\<close>

theorem wrappers_fail_without_name:
  "fst (call partial_add [1, 2] [] (fresh_world ())) = Inr 3 \<and>
   call (with_logging (recording partial_add)) [1, 2] [] (fresh_world ((), [])) =
     (Inl AttributeError, fresh_world ((), [])) \<and>
   fst (call (benchmark demo_platform (recording partial_add)) [1, 2] [] (fresh_world ((), []))) =
     Inl AttributeError"
  by (simp add: partial_add_def with_logging_nameless recording_name benchmark_call recording_call)

subsection \<open>C6: an exception of the wrapped callable propagates\<close>

text \<open>
  C6. Whenever a wrapper invokes \<open>f\<close> and \<open>f\<close> raises, the wrapper raises the same
  exception, and the world it leaves is the one \<open>f\<close> left when it raised: nothing is logged
  after, neither the \<open>Finished\<close> entry nor the timing entry. The logging wrapper invokes
  \<open>f\<close> in the world that holds the \<open>Calling\<close> entry, which exists when \<open>f\<close> has a
  \<open>__name__\<close>; when \<open>f\<close> has none the logging wrapper does not invoke \<open>f\<close> at all (the
  probe records no call), so there is no invocation in which \<open>f\<close> could raise. The
  benchmark wrapper invokes every \<open>f\<close> right after it has read the timer.
\<close>

theorem wrappers_propagate_exceptions:
  "(\<forall>n. name_attr f = Some n \<and>
        call f args kwargs (logging_info (''Calling '' @ n) w) = (Inl e, w1) \<longrightarrow>
        call (with_logging f) args kwargs w = (Inl e, w1)) \<and>
   (name_attr f = None \<longrightarrow>
      recorded_calls (snd (call (with_logging (recording f)) args kwargs u)) = recorded_calls u) \<and>
   (call f args kwargs (snd (perf_counter pf w)) = (Inl e, w1) \<longrightarrow>
      call (benchmark pf f) args kwargs w = (Inl e, w1))"
proof (intro conjI allI impI)
  fix n
  assume "name_attr f = Some n \<and> call f args kwargs (logging_info (''Calling '' @ n) w) = (Inl e, w1)"
  then show "call (with_logging f) args kwargs w = (Inl e, w1)"
    by (simp add: with_logging_call)
next
  assume "name_attr f = None"
  then have "name_attr (recording f) = None" by (simp add: recording_name)
  then show "recorded_calls (snd (call (with_logging (recording f)) args kwargs u)) = recorded_calls u"
    by (simp add: with_logging_nameless)
next
  assume "call f args kwargs (snd (perf_counter pf w)) = (Inl e, w1)"
  then show "call (benchmark pf f) args kwargs w = (Inl e, w1)"
    by (simp add: benchmark_call)
qed

theorem wrappers_propagate_exceptions_witness:
  "call (with_logging failing_function) [1] [] (fresh_world ()) =
     (Inl (Exception ''boom''), \<lparr>log = [''Calling fail''], ticks = 0, heap = ()\<rparr>) \<and>
   recorded_calls (snd (call (with_logging (recording partial_add)) [1] [] (fresh_world ((), [])))) =
     recorded_calls (fresh_world ((), [])) \<and>
   call (benchmark demo_platform failing_function) [1] [] (fresh_world ()) =
     (Inl (Exception ''boom''), \<lparr>log = [], ticks = 1, heap = ()\<rparr>)"
proof -
  have a: "name_attr (failing_function :: (int, int, unit) callable) = Some ''fail'' \<and>
      call failing_function [1] [] (logging_info (''Calling '' @ ''fail'') (fresh_world ())) =
        (Inl (Exception ''boom''), \<lparr>log = [''Calling fail''], ticks = 0, heap = ()\<rparr>)"
    by (simp add: failing_function_def logging_info_def fresh_world_def)
  have b: "call failing_function [1] [] (snd (perf_counter demo_platform (fresh_world ()))) =
      (Inl (Exception ''boom''), \<lparr>log = [], ticks = 1, heap = ()\<rparr>)"
    by (simp add: failing_function_def perf_counter_def fresh_world_def)
  have c: "name_attr (partial_add :: (int, int, unit) callable) = None"
    by (simp add: partial_add_def)
  from wrappers_propagate_exceptions
    [of failing_function "[1]" "[]" "fresh_world ()" "Exception ''boom''"
      "\<lparr>log = [''Calling fail''], ticks = 0, heap = ()\<rparr>"]
    a
  have 1: "call (with_logging failing_function) [1] [] (fresh_world ()) =
     (Inl (Exception ''boom''), \<lparr>log = [''Calling fail''], ticks = 0, heap = ()\<rparr>)"
    by blast
  from wrappers_propagate_exceptions
    [of partial_add "[1]" "[]" _ _ _ "fresh_world ((), [])"] c
  have 2: "recorded_calls (snd (call (with_logging (recording partial_add)) [1] [] (fresh_world ((), [])))) =
     recorded_calls (fresh_world ((), []))"
    by blast
  from wrappers_propagate_exceptions
    [of failing_function "[1]" "[]" "fresh_world ()" "Exception ''boom''"
      "\<lparr>log = [], ticks = 1, heap = ()\<rparr>" _ demo_platform] b
  have 3: "call (benchmark demo_platform failing_function) [1] [] (fresh_world ()) =
     (Inl (Exception ''boom''), \<lparr>log = [], ticks = 1, heap = ()\<rparr>)"
    by blast
  from 1 2 3 show ?thesis by simp
qed

subsection \<open>C7: the three log entries of the composed routine\<close>

text \<open>
  C7. On every invocation of the composed \<open>count_prime_numbers\<close> (benchmark innermost,
  \<open>with_logging\<close> outermost) that returns normally, exactly three entries are appended to the
  log, in this order: the \<open>Calling\<close> entry, the \<open>took X seconds\<close> timing entry, the
  \<open>Finished\<close> entry.
\<close>

theorem composed_log_order:
  assumes "fst (call (count_prime_numbers pf) args kwargs w) = Inr v"
  shows "log (snd (call (count_prime_numbers pf) args kwargs w)) =
     log w @
     [''Calling count_prime_numbers'',
      ''Execution of count_prime_numbers took '' @
        format_2f pf (elapsed pf (perf_counter_at pf (Suc (ticks w))) (perf_counter_at pf (ticks w))) @
        '' seconds.'',
      ''Finished count_prime_numbers'']"
  using assms
  by (auto simp: count_prime_numbers_def with_logging_def benchmark_def functools_wraps_def
      get_name_def count_prime_numbers_function_def perf_counter_def logging_info_def
      split: sum.splits prod.splits)

theorem composed_log_order_witness:
  "log (snd (call (count_prime_numbers demo_platform) [10] [] (fresh_world ()))) =
     [''Calling count_prime_numbers'', ''Execution of count_prime_numbers took 1.00 seconds.'',
      ''Finished count_prime_numbers'']"
proof -
  have "fst (call (count_prime_numbers demo_platform) [10] [] (fresh_world ())) = Inr 4"
    by (simp add: decorated_result count_body_ten)
  from composed_log_order [OF this] show ?thesis
    by (simp add: fresh_world_def demo_platform_def)
qed

subsection \<open>C8: the wrappers report the name of the wrapped callable\<close>

text \<open>
  C8, as the code has it. For every callable \<open>f\<close> that has a \<open>__name__\<close>, the callable
  returned by \<open>with_logging(f)\<close>, by \<open>benchmark(f)\<close> and by both stacked reports that same
  name to introspection, and the entries the wrappers log (\<open>Calling\<close>, \<open>Finished\<close>,
  \<open>Execution of ... took\<close>) carry that name.
\<close>

theorem wrappers_keep_name:
  assumes "name_attr f = Some n"
  shows "name_attr (with_logging f) = Some n \<and> name_attr (benchmark pf f) = Some n \<and>
     name_attr (with_logging (benchmark pf f)) = Some n \<and>
     log (snd (call (with_logging f) args kwargs w)) =
       (case call f args kwargs (w\<lparr>log := log w @ [''Calling '' @ n]\<rparr>) of
          (Inl e, w1) \<Rightarrow> log w1
        | (Inr v, w1) \<Rightarrow> log w1 @ [''Finished '' @ n]) \<and>
     log (snd (call (benchmark pf f) args kwargs w)) =
       (case call f args kwargs (w\<lparr>ticks := Suc (ticks w)\<rparr>) of
          (Inl e, w1) \<Rightarrow> log w1
        | (Inr v, w1) \<Rightarrow>
            log w1 @
            [''Execution of '' @ n @ '' took '' @
             format_2f pf (elapsed pf (perf_counter_at pf (ticks w1)) (perf_counter_at pf (ticks w))) @
             '' seconds.''])"
proof -
  have bn: "name_attr (benchmark pf f) = Some n" using assms by (simp add: wrapper_names)
  have "name_attr (with_logging (benchmark pf f)) = Some n"
    by (simp add: wrapper_names(1) bn)
  moreover have "log (snd (call (with_logging f) args kwargs w)) =
       (case call f args kwargs (w\<lparr>log := log w @ [''Calling '' @ n]\<rparr>) of
          (Inl e, w1) \<Rightarrow> log w1
        | (Inr v, w1) \<Rightarrow> log w1 @ [''Finished '' @ n])"
    by (simp add: with_logging_call [OF assms] logging_info_def split: prod.splits sum.splits)
  moreover have "log (snd (call (benchmark pf f) args kwargs w)) =
       (case call f args kwargs (w\<lparr>ticks := Suc (ticks w)\<rparr>) of
          (Inl e, w1) \<Rightarrow> log w1
        | (Inr v, w1) \<Rightarrow>
            log w1 @
            [''Execution of '' @ n @ '' took '' @
             format_2f pf (elapsed pf (perf_counter_at pf (ticks w1)) (perf_counter_at pf (ticks w))) @
             '' seconds.''])"
    by (simp add: benchmark_call assms logging_info_def perf_counter_def split: prod.splits sum.splits)
  ultimately show ?thesis using assms bn by (simp add: wrapper_names)
qed

theorem wrappers_keep_name_witness:
  "name_attr (with_logging (add_function :: (int, int, unit) callable)) = Some ''add'' \<and>
   name_attr (benchmark demo_platform (add_function :: (int, int, unit) callable)) = Some ''add'' \<and>
   name_attr (with_logging (benchmark demo_platform (add_function :: (int, int, unit) callable))) =
     Some ''add'' \<and>
   log (snd (call (with_logging add_function) [1, 2] [] (fresh_world ()))) =
     [''Calling add'', ''Finished add''] \<and>
   log (snd (call (benchmark demo_platform add_function) [1, 2] [] (fresh_world ()))) =
     [''Execution of add took 1.00 seconds.'']"
proof -
  have n: "name_attr (add_function :: (int, int, unit) callable) = Some ''add''"
    by (simp add: add_function_def)
  from wrappers_keep_name [OF n, of demo_platform "[1, 2]" "[]" "fresh_world ()"]
  show ?thesis by (simp add: add_function_def fresh_world_def demo_platform_def)
qed

text \<open>
  C8, as it is stated (every callable), fails for a callable without \<open>__name__\<close>:
  \<open>functools.wraps\<close> has no name to copy, and the returned callable reports the generic name
  \<open>wrapper\<close>, a name that \<open>f\<close> does not report.
\<close>

theorem wrappers_generic_name_without_name:
  "name_attr (partial_add :: (int, int, unit) callable) = None \<and>
   name_attr (with_logging (partial_add :: (int, int, unit) callable)) = Some ''wrapper'' \<and>
   name_attr (benchmark demo_platform (partial_add :: (int, int, unit) callable)) = Some ''wrapper''"
  by (simp add: wrapper_names partial_add_def)

end
